theory Spec2Isabelle
  imports Complex_Main "HOL-Library.AList" "HOL-Library.Extended_Nat" "HOL-Library.Word"
begin

section \<open>Retry backoff (utils/fetch)\<close>

text \<open>
  JavaScript numbers are modelled as rationals: every quantity below is an integer or an
  integer times a fixed fraction, far below \<open>2^53\<close>, so the arithmetic of the source is
  exact on them. \<open>Math.random()\<close> is a parameter, the number drawn.
\<close>

definition BASE_RETRY_DELAY_MS :: rat where
  "BASE_RETRY_DELAY_MS = 150"

definition MAX_RETRY_DELAY_MS :: rat where
  "MAX_RETRY_DELAY_MS = 2000"

definition getRetryBackoffDelayMs :: "rat \<Rightarrow> rat \<Rightarrow> rat" where
  "getRetryBackoffDelayMs attempt random =
     (let exponent = max 0 \<lfloor>attempt\<rfloor>;
          exponentialDelayMs = min MAX_RETRY_DELAY_MS (BASE_RETRY_DELAY_MS * 2 ^ nat exponent);
          jitterSpreadMs = max 1 \<lfloor>exponentialDelayMs * (3 / 10)\<rfloor>;
          jitterMs = \<lfloor>random * of_int jitterSpreadMs\<rfloor>
      in exponentialDelayMs + of_int jitterMs)"

section \<open>Backend pool (backend.ts)\<close>

definition DEFAULT_BACKEND_WEIGHT :: int where
  "DEFAULT_BACKEND_WEIGHT = 1"

definition FAILURE_HYSTERESIS_COUNT :: nat where
  "FAILURE_HYSTERESIS_COUNT = 1"

definition RECOVERY_HYSTERESIS_COUNT :: nat where
  "RECOVERY_HYSTERESIS_COUNT = 2"

definition ALIAS_MIN_SAMPLE_ATTEMPTS :: nat where
  "ALIAS_MIN_SAMPLE_ATTEMPTS = 4"

definition ALIAS_SAMPLE_ATTEMPTS_MULTIPLIER :: nat where
  "ALIAS_SAMPLE_ATTEMPTS_MULTIPLIER = 2"

definition DEFAULT_BACKEND_URL :: string where
  "DEFAULT_BACKEND_URL = ''http://127.0.0.1:10000/''"

text \<open>
  \<open>BackendRuntimeState\<close>: a parsed URL is represented by its canonical string, which is
  also the backend's \<open>key\<close>. Timestamps are milliseconds.
\<close>

record BackendRuntimeState =
  index :: nat
  key :: string
  url :: string
  weight :: int
  healthy :: bool
  lastCheck :: int
  failures :: nat
  consecutiveFailures :: nat
  consecutiveSuccesses :: nat

record AliasTable =
  probabilities :: "rat list"
  aliases :: "nat list"
  backendIndexes :: "nat list"

text \<open>An array read \<open>xs[i]\<close>: \<open>undefined\<close> (here \<open>None\<close>) outside the array.\<close>

definition js_at :: "'a list \<Rightarrow> int \<Rightarrow> 'a option" where
  "js_at xs i = (if 0 \<le> i \<and> i < int (length xs) then Some (xs ! nat i) else None)"

text \<open>
  The health transitions of one backend object, as \<open>markFailed\<close>, \<open>markHealthy\<close> and
  \<open>applyHealthProbeResult\<close> perform them on the object they looked up. The second
  component says whether the health bit changed (the condition under which the source
  rebuilds the selection structures).
\<close>

definition markFailedBackend :: "int \<Rightarrow> BackendRuntimeState \<Rightarrow> BackendRuntimeState \<times> bool" where
  "markFailedBackend now backend =
     (let b1 = backend\<lparr>lastCheck := now,
                       failures := failures backend + 1,
                       consecutiveFailures := consecutiveFailures backend + 1,
                       consecutiveSuccesses := 0\<rparr>;
          shouldFlipHealth = (healthy b1 \<and> consecutiveFailures b1 \<ge> FAILURE_HYSTERESIS_COUNT)
      in if \<not> shouldFlipHealth then (b1, False)
         else (b1\<lparr>healthy := False\<rparr>, True))"

definition markHealthyBackend :: "int \<Rightarrow> BackendRuntimeState \<Rightarrow> BackendRuntimeState \<times> bool" where
  "markHealthyBackend now backend =
     (let b1 = backend\<lparr>lastCheck := now,
                       failures := 0,
                       consecutiveFailures := 0,
                       consecutiveSuccesses := RECOVERY_HYSTERESIS_COUNT\<rparr>
      in if healthy b1 then (b1, False)
         else (b1\<lparr>healthy := True\<rparr>, True))"

definition applyHealthProbeResult ::
  "int \<Rightarrow> BackendRuntimeState \<Rightarrow> bool \<Rightarrow> BackendRuntimeState \<times> bool" where
  "applyHealthProbeResult now backend isHealthyResult =
     (let b0 = backend\<lparr>lastCheck := now\<rparr>
      in if isHealthyResult then
           (let b1 = b0\<lparr>consecutiveSuccesses := consecutiveSuccesses b0 + 1,
                        consecutiveFailures := 0\<rparr>
            in if healthy b1 then (b1\<lparr>failures := 0\<rparr>, False)
               else if consecutiveSuccesses b1 < RECOVERY_HYSTERESIS_COUNT then (b1, False)
               else (b1\<lparr>healthy := True, failures := 0\<rparr>, True))
         else
           (let b1 = b0\<lparr>consecutiveFailures := consecutiveFailures b0 + 1,
                        consecutiveSuccesses := 0,
                        failures := failures b0 + 1\<rparr>
            in if \<not> healthy b1 \<or> consecutiveFailures b1 < FAILURE_HYSTERESIS_COUNT then (b1, False)
               else (b1\<lparr>healthy := False\<rparr>, True)))"

subsection \<open>Vose alias table\<close>

text \<open>\<open>xs[i] ?? d\<close> for an index that is a natural number.\<close>

definition nth_or :: "'a \<Rightarrow> 'a list \<Rightarrow> nat \<Rightarrow> 'a" where
  "nth_or d xs i = (if i < length xs then xs ! i else d)"

text \<open>
  The pairing loop of \<open>buildAliasTable\<close>. The two work stacks \<open>small\<close> and \<open>large\<close> are lists
  whose head is the top (\<open>pop\<close> takes the head, \<open>push\<close> conses). Every index on a stack is a
  position of the table, so the array writes are in range.
\<close>

fun pairSmallLarge ::
  "rat list \<Rightarrow> rat list \<Rightarrow> nat list \<Rightarrow> nat list \<Rightarrow> nat list
     \<Rightarrow> rat list \<times> nat list \<times> nat list \<times> nat list" where
  "pairSmallLarge scaled probs als (lessIdx # small) (moreIdx # large) =
     (let probs' = probs[lessIdx := nth_or 0 scaled lessIdx];
          als' = als[lessIdx := moreIdx];
          updated = nth_or 0 scaled moreIdx + nth_or 0 scaled lessIdx - 1;
          scaled' = scaled[moreIdx := updated]
      in if updated < 1 then pairSmallLarge scaled' probs' als' (moreIdx # small) large
         else pairSmallLarge scaled' probs' als' small (moreIdx # large))"
| "pairSmallLarge scaled probs als small large = (probs, als, small, large)"

text \<open>The two draining loops: every index left on a stack gets probability 1 and itself as alias.\<close>

fun drainStack :: "nat list \<Rightarrow> rat list \<times> nat list \<Rightarrow> rat list \<times> nat list" where
  "drainStack [] pa = pa"
| "drainStack (i # stack) (probs, als) = drainStack stack (probs[i := 1], als[i := i])"

definition buildAliasTable :: "BackendRuntimeState list \<Rightarrow> AliasTable option" where
  "buildAliasTable candidates =
     (let size = length candidates
      in if size = 0 then None
         else if size = 1 then
           (case candidates of
              only # _ \<Rightarrow> Some \<lparr>probabilities = [1], aliases = [0], backendIndexes = [index only]\<rparr>
            | [] \<Rightarrow> None)
         else
           (let probabilities0 = replicate size (0::rat);
                aliases0 = replicate size (0::nat);
                backendIndexes0 = map index candidates;
                totalWeight = sum_list (map (\<lambda>c. max DEFAULT_BACKEND_WEIGHT (weight c)) candidates)
            in if totalWeight \<le> 0 then
                 Some \<lparr>probabilities = replicate size 1, aliases = [0..<size],
                        backendIndexes = backendIndexes0\<rparr>
               else
                 (let scaled = map (\<lambda>c. (of_int (max DEFAULT_BACKEND_WEIGHT (weight c)) * of_nat size)
                                            / of_int totalWeight) candidates;
                      small = rev (filter (\<lambda>i. nth_or 0 scaled i < 1) [0..<size]);
                      large = rev (filter (\<lambda>i. \<not> nth_or 0 scaled i < 1) [0..<size]);
                      (probs1, als1, small1, large1) =
                         pairSmallLarge scaled probabilities0 aliases0 small large;
                      (probs2, als2) = drainStack small1 (drainStack large1 (probs1, als1))
                  in Some \<lparr>probabilities = probs2, aliases = als2,
                           backendIndexes = backendIndexes0\<rparr>)))"

text \<open>
  \<open>sampleAliasTable\<close>: \<open>rnd\<close> is the sequence of numbers \<open>Math.random()\<close> returns and \<open>k\<close> the
  number of draws made so far; the result is the sampled backend index (\<open>-1\<close> for none) and
  the new number of draws.
\<close>

definition sampleAliasTable :: "AliasTable \<Rightarrow> (nat \<Rightarrow> rat) \<Rightarrow> nat \<Rightarrow> int \<times> nat" where
  "sampleAliasTable table rnd k =
     (let size = length (backendIndexes table)
      in if size = 0 then (- 1, k)
         else if size = 1 then
           ((case js_at (backendIndexes table) 0 of Some i \<Rightarrow> int i | None \<Rightarrow> - 1), k)
         else
           (let bucket = \<lfloor>rnd k * of_nat size\<rfloor>;
                threshold = (case js_at (probabilities table) bucket of Some p \<Rightarrow> p | None \<Rightarrow> 1);
                aliasPosition = (case js_at (aliases table) bucket of Some a \<Rightarrow> int a | None \<Rightarrow> bucket);
                selectedPosition = (if rnd (k + 1) < threshold then bucket else aliasPosition)
            in ((case js_at (backendIndexes table) selectedPosition of Some i \<Rightarrow> int i | None \<Rightarrow> - 1),
                k + 2)))"

subsection \<open>Min-index heap\<close>

text \<open>
  \<open>MinIndexHeap\<close>: the array \<open>heap\<close>; the \<open>positions\<close> map of the source holds exactly the
  values of the array, so membership in it is membership in the list. The manager uses
  \<open>clear\<close>, \<open>insert\<close> and \<open>peek\<close> only.
\<close>

definition heapValue :: "nat list \<Rightarrow> nat \<Rightarrow> enat" where
  "heapValue heap i = (case js_at heap (int i) of Some v \<Rightarrow> enat v | None \<Rightarrow> \<infinity>)"

definition heapSwap :: "nat list \<Rightarrow> nat \<Rightarrow> nat \<Rightarrow> nat list" where
  "heapSwap heap first second =
     (case (js_at heap (int first), js_at heap (int second)) of
        (Some firstValue, Some secondValue) \<Rightarrow> (heap[first := secondValue])[second := firstValue]
      | _ \<Rightarrow> heap)"

function siftUp :: "nat list \<Rightarrow> nat \<Rightarrow> nat list" where
  "siftUp heap i =
     (if 0 < i then
        (let parent = (i - 1) div 2
         in if heapValue heap parent \<le> heapValue heap i then heap
            else siftUp (heapSwap heap i parent) parent)
      else heap)"
  by pat_completeness auto
termination
  by (relation "measure (\<lambda>(heap, i). i)") auto

definition heapInsert :: "nat \<Rightarrow> nat list \<Rightarrow> nat list" where
  "heapInsert v heap = (if v \<in> set heap then heap else siftUp (heap @ [v]) (length heap))"

definition heapPeek :: "nat list \<Rightarrow> nat option" where
  "heapPeek heap = js_at heap 0"

subsection \<open>The manager\<close>

text \<open>
  \<open>backendByUrl\<close> and \<open>backends\<close> hold the same objects, so the list is the one store and a
  lookup by key is a search of it. The probe cycle is asynchronous: \<open>getBackend\<close> only
  marks it dispatched; its results arrive later, one \<open>applyHealthProbeResult\<close> per backend,
  and \<open>finishHealthChecks\<close> is the tail of \<open>runHealthChecks\<close> that runs once all of them
  have arrived.
\<close>

record BackendManager =
  backends :: "BackendRuntimeState list"
  healthCheckIntervalMs :: int
  stickySession :: bool
  healthyAliasTable :: "AliasTable option"
  allAliasTable :: "AliasTable option"
  healthyIndexHeap :: "nat list"
  healthCheckInFlight :: bool
  nextHealthCheckAt :: int

definition rebuildHealthySelectionStructures :: "BackendManager \<Rightarrow> BackendManager" where
  "rebuildHealthySelectionStructures m =
     (let healthyBackends = filter healthy (backends m)
      in m\<lparr>healthyIndexHeap := fold heapInsert (map index healthyBackends) [],
           healthyAliasTable := buildAliasTable healthyBackends\<rparr>)"

definition rebuildSelectionStructures :: "BackendManager \<Rightarrow> BackendManager" where
  "rebuildSelectionStructures m =
     rebuildHealthySelectionStructures (m\<lparr>allAliasTable := buildAliasTable (backends m)\<rparr>)"

text \<open>
  \<open>initializeBackends\<close> on the parsed configuration, a list of (canonical URL, weight) with
  the invalid entries already skipped: duplicates collapse, summing weights, and an empty
  result becomes the default backend.
\<close>

fun collectBackends ::
  "int \<Rightarrow> (string \<times> int) list \<Rightarrow> BackendRuntimeState list \<Rightarrow> BackendRuntimeState list" where
  "collectBackends now [] acc = acc"
| "collectBackends now ((k, w) # rest) acc =
     (if k \<in> set (map key acc) then
        collectBackends now rest (map (\<lambda>b. if key b = k then b\<lparr>weight := weight b + w\<rparr> else b) acc)
      else
        collectBackends now rest
          (acc @ [\<lparr>index = length acc, key = k, url = k, weight = w, healthy = True,
                   lastCheck = now, failures = 0, consecutiveFailures = 0,
                   consecutiveSuccesses = 0\<rparr>]))"

definition initializeBackends :: "int \<Rightarrow> (string \<times> int) list \<Rightarrow> BackendRuntimeState list" where
  "initializeBackends now parsedConfigurations =
     (let collected = collectBackends now parsedConfigurations [];
          collected' = (if collected = [] then
                          [\<lparr>index = 0, key = DEFAULT_BACKEND_URL, url = DEFAULT_BACKEND_URL,
                            weight = DEFAULT_BACKEND_WEIGHT, healthy = True, lastCheck = now,
                            failures = 0, consecutiveFailures = 0, consecutiveSuccesses = 0\<rparr>]
                        else collected)
      in map (\<lambda>(i, b). b\<lparr>index := i\<rparr>) (List.enumerate 0 collected'))"

definition newBackendManager ::
  "int \<Rightarrow> (string \<times> int) list \<Rightarrow> int \<Rightarrow> bool \<Rightarrow> BackendManager" where
  "newBackendManager now parsedConfigurations intervalMs stickyConfigured =
     (let bs = initializeBackends now parsedConfigurations
      in (rebuildSelectionStructures
            \<lparr>backends = bs, healthCheckIntervalMs = intervalMs,
             stickySession = (length bs > 1 \<and> stickyConfigured),
             healthyAliasTable = None, allAliasTable = None, healthyIndexHeap = [],
             healthCheckInFlight = False, nextHealthCheckAt = 0\<rparr>)
          \<lparr>nextHealthCheckAt := now + intervalMs\<rparr>)"

text \<open>
  \<open>String.prototype.trim\<close> on ASCII text, and the argument of \<open>markFailed\<close>,
  \<open>markHealthy\<close>: a URL object (given by its canonical string) or a string still to be
  parsed. \<open>parseUrl\<close> stands for \<open>new URL(s).toString()\<close>, \<open>None\<close> where it throws.
\<close>

definition is_ws :: "char \<Rightarrow> bool" where
  "is_ws c = (c \<in> set [CHR '' '', CHR 0x09, CHR 0x0A, CHR 0x0B, CHR 0x0C, CHR 0x0D])"

definition js_trim :: "string \<Rightarrow> string" where
  "js_trim s = rev (dropWhile is_ws (rev (dropWhile is_ws s)))"

datatype url_arg = UrlObject string | UrlText string

definition resolveBackendLookupKey :: "(string \<Rightarrow> string option) \<Rightarrow> url_arg \<Rightarrow> string option" where
  "resolveBackendLookupKey parseUrl u =
     (case u of
        UrlObject canonical \<Rightarrow> Some canonical
      | UrlText t \<Rightarrow>
          (let trimmed = js_trim t
           in if trimmed = [] then None else parseUrl trimmed))"

fun firstPosition :: "('a \<Rightarrow> bool) \<Rightarrow> 'a list \<Rightarrow> nat option" where
  "firstPosition P [] = None"
| "firstPosition P (x # xs) =
     (if P x then Some 0 else map_option Suc (firstPosition P xs))"

text \<open>\<open>lookupBackend\<close> returns the position of the object found in the store.\<close>

definition lookupBackend ::
  "BackendManager \<Rightarrow> (string \<Rightarrow> string option) \<Rightarrow> url_arg \<Rightarrow> nat option" where
  "lookupBackend m parseUrl u =
     (case resolveBackendLookupKey parseUrl u of
        None \<Rightarrow> None
      | Some lookupKey \<Rightarrow> firstPosition (\<lambda>b. key b = lookupKey) (backends m))"

definition markFailed ::
  "BackendManager \<Rightarrow> (string \<Rightarrow> string option) \<Rightarrow> int \<Rightarrow> url_arg \<Rightarrow> BackendManager" where
  "markFailed m parseUrl now u =
     (case lookupBackend m parseUrl u of
        None \<Rightarrow> m
      | Some i \<Rightarrow>
          (let (b', flipped) = markFailedBackend now (backends m ! i);
               m1 = m\<lparr>backends := (backends m)[i := b']\<rparr>
           in if flipped then rebuildHealthySelectionStructures m1 else m1))"

definition markHealthy ::
  "BackendManager \<Rightarrow> (string \<Rightarrow> string option) \<Rightarrow> int \<Rightarrow> url_arg \<Rightarrow> BackendManager" where
  "markHealthy m parseUrl now u =
     (case lookupBackend m parseUrl u of
        None \<Rightarrow> m
      | Some i \<Rightarrow>
          (let (b', flipped) = markHealthyBackend now (backends m ! i);
               m1 = m\<lparr>backends := (backends m)[i := b']\<rparr>
           in if flipped then rebuildHealthySelectionStructures m1 else m1))"

text \<open>
  One probe result arriving for the backend at position \<open>i\<close> (\<open>checkBackendHealth\<close> after
  its fetch): the object changes, the selection structures do not.
\<close>

definition probeResultArrives :: "BackendManager \<Rightarrow> int \<Rightarrow> nat \<Rightarrow> bool \<Rightarrow> BackendManager \<times> bool" where
  "probeResultArrives m now i isHealthyResult =
     (if i < length (backends m) then
        (let (b', changed) = applyHealthProbeResult now (backends m ! i) isHealthyResult
         in (m\<lparr>backends := (backends m)[i := b']\<rparr>, changed))
      else (m, False))"

definition finishHealthChecks :: "BackendManager \<Rightarrow> bool list \<Rightarrow> BackendManager" where
  "finishHealthChecks m changes =
     (if list_ex (\<lambda>changed. changed) changes then rebuildHealthySelectionStructures m else m)
       \<lparr>healthCheckInFlight := False\<rparr>"

definition maybeRunScheduledHealthChecks :: "BackendManager \<Rightarrow> int \<Rightarrow> BackendManager" where
  "maybeRunScheduledHealthChecks m now =
     (if healthCheckInFlight m \<or> now < nextHealthCheckAt m then m
      else m\<lparr>nextHealthCheckAt := now + healthCheckIntervalMs m, healthCheckInFlight := True\<rparr>)"

definition createFallbackBackend :: "int \<Rightarrow> BackendRuntimeState" where
  "createFallbackBackend now =
     \<lparr>index = 0, key = DEFAULT_BACKEND_URL, url = DEFAULT_BACKEND_URL,
      weight = DEFAULT_BACKEND_WEIGHT, healthy = True, lastCheck = now, failures = 0,
      consecutiveFailures = 0, consecutiveSuccesses = 0\<rparr>"

definition pickByOrder ::
  "BackendRuntimeState list \<Rightarrow> string set \<Rightarrow> bool \<Rightarrow> BackendRuntimeState option" where
  "pickByOrder candidates excluded healthyOnly =
     find (\<lambda>candidate. \<not> (healthyOnly \<and> \<not> healthy candidate) \<and> key candidate \<notin> excluded) candidates"

definition pickStickyHealthy :: "BackendManager \<Rightarrow> string set \<Rightarrow> BackendRuntimeState option" where
  "pickStickyHealthy m excluded =
     (case heapPeek (healthyIndexHeap m) of
        None \<Rightarrow> pickByOrder (backends m) excluded True
      | Some topHealthyIndex \<Rightarrow>
          (case js_at (backends m) (int topHealthyIndex) of
             None \<Rightarrow> pickByOrder (backends m) excluded True
           | Some candidate \<Rightarrow>
               if healthy candidate \<and> key candidate \<notin> excluded then Some candidate
               else pickByOrder (backends m) excluded True))"

text \<open>The bounded sampling loop of \<open>pickFromAlias\<close>; \<open>n\<close> is the number of attempts left.\<close>

fun sampleAttempts ::
  "nat \<Rightarrow> BackendRuntimeState list \<Rightarrow> AliasTable \<Rightarrow> string set \<Rightarrow> (nat \<Rightarrow> rat) \<Rightarrow> nat
     \<Rightarrow> BackendRuntimeState option \<times> nat" where
  "sampleAttempts 0 bs table excluded rnd k = (None, k)"
| "sampleAttempts (Suc n) bs table excluded rnd k =
     (let (selectedIndex, k') = sampleAliasTable table rnd k
      in if selectedIndex < 0 then sampleAttempts n bs table excluded rnd k'
         else
           (case js_at bs selectedIndex of
              None \<Rightarrow> sampleAttempts n bs table excluded rnd k'
            | Some candidate \<Rightarrow>
                if key candidate \<in> excluded then sampleAttempts n bs table excluded rnd k'
                else (Some candidate, k')))"

text \<open>The in-order scan of the table that follows the sampling loop.\<close>

fun scanTable :: "BackendRuntimeState list \<Rightarrow> string set \<Rightarrow> nat list \<Rightarrow> BackendRuntimeState option" where
  "scanTable bs excluded [] = None"
| "scanTable bs excluded (backendIndex # rest) =
     (case js_at bs (int backendIndex) of
        None \<Rightarrow> scanTable bs excluded rest
      | Some candidate \<Rightarrow>
          if key candidate \<in> excluded then scanTable bs excluded rest else Some candidate)"

definition pickFromAlias ::
  "BackendRuntimeState list \<Rightarrow> AliasTable option \<Rightarrow> string set \<Rightarrow> (nat \<Rightarrow> rat) \<Rightarrow> nat
     \<Rightarrow> BackendRuntimeState option \<times> nat" where
  "pickFromAlias bs table excluded rnd k =
     (case table of
        None \<Rightarrow> (None, k)
      | Some t \<Rightarrow>
          if length (backendIndexes t) = 0 then (None, k)
          else if excluded = {} then
            (let (selectedIndex, k') = sampleAliasTable t rnd k
             in ((if selectedIndex \<ge> 0 then js_at bs selectedIndex else None), k'))
          else
            (let attempts = max ALIAS_MIN_SAMPLE_ATTEMPTS
                              (length (backendIndexes t) * ALIAS_SAMPLE_ATTEMPTS_MULTIPLIER)
             in case sampleAttempts attempts bs t excluded rnd k of
                  (Some candidate, k') \<Rightarrow> (Some candidate, k')
                | (None, k') \<Rightarrow> (scanTable bs excluded (backendIndexes t), k')))"

definition pickHealthy ::
  "BackendManager \<Rightarrow> string set \<Rightarrow> (nat \<Rightarrow> rat) \<Rightarrow> nat \<Rightarrow> BackendRuntimeState option \<times> nat" where
  "pickHealthy m excluded rnd k =
     (if stickySession m then (pickStickyHealthy m excluded, k)
      else pickFromAlias (backends m) (healthyAliasTable m) excluded rnd k)"

definition pickAny ::
  "BackendManager \<Rightarrow> string set \<Rightarrow> (nat \<Rightarrow> rat) \<Rightarrow> nat \<Rightarrow> BackendRuntimeState option \<times> nat" where
  "pickAny m excluded rnd k =
     (if stickySession m then (pickByOrder (backends m) excluded False, k)
      else pickFromAlias (backends m) (allAliasTable m) excluded rnd k)"

text \<open>The set \<open>excluded\<close> that \<open>getBackend\<close> builds from its argument.\<close>

definition excludedKeys :: "(string \<Rightarrow> string option) \<Rightarrow> string list \<Rightarrow> string set" where
  "excludedKeys parseUrl excludedUrls =
     set (List.map_filter (\<lambda>u. resolveBackendLookupKey parseUrl (UrlText u)) excludedUrls)"

text \<open>
  \<open>getBackend\<close> returns the backend chosen, the manager (a probe cycle may have been
  dispatched) and the number of random draws made.
\<close>

definition getBackend ::
  "BackendManager \<Rightarrow> (string \<Rightarrow> string option) \<Rightarrow> string list \<Rightarrow> int \<Rightarrow> (nat \<Rightarrow> rat) \<Rightarrow> nat
     \<Rightarrow> BackendRuntimeState \<times> BackendManager \<times> nat" where
  "getBackend m parseUrl excludedUrls now rnd k =
     (let m1 = maybeRunScheduledHealthChecks m now;
          excluded = excludedKeys parseUrl excludedUrls;
          (healthyCandidate, k1) = pickHealthy m1 excluded rnd k
      in case healthyCandidate of
           Some c \<Rightarrow> (c, m1, k1)
         | None \<Rightarrow>
             (let (fallbackCandidate, k2) = pickAny m1 excluded rnd k1
              in case fallbackCandidate of
                   Some c \<Rightarrow> (c, m1, k2)
                 | None \<Rightarrow>
                     ((case backends m1 of b # _ \<Rightarrow> b | [] \<Rightarrow> createFallbackBackend now), m1, k2)))"

text \<open>
  Two properties of a manager that its constructor establishes: every backend's \<open>index\<close>
  is its position in \<open>backends\<close>, and the two alias tables are the ones built from the
  current backends and their current health bits (as they are after each
  \<open>rebuildHealthySelectionStructures\<close>).
\<close>

definition backendsIndexed :: "BackendManager \<Rightarrow> bool" where
  "backendsIndexed m = (map index (backends m) = [0..<length (backends m)])"

definition selectionStructuresCurrent :: "BackendManager \<Rightarrow> bool" where
  "selectionStructuresCurrent m =
     (healthyAliasTable m = buildAliasTable (filter healthy (backends m))
      \<and> allAliasTable m = buildAliasTable (backends m))"

text \<open>
  A whole probe cycle: the results arrive in some order, each for a backend position and at
  its own time, and \<open>runHealthChecks\<close> finishes with the flags that
  \<open>applyHealthProbeResult\<close> returned.
\<close>

fun probeResultsArrive ::
  "BackendManager \<Rightarrow> (nat \<times> int \<times> bool) list \<Rightarrow> BackendManager \<times> bool list" where
  "probeResultsArrive m [] = (m, [])"
| "probeResultsArrive m ((i, now, isHealthyResult) # rest) =
     (let (m1, changed) = probeResultArrives m now i isHealthyResult;
          (m2, changes) = probeResultsArrive m1 rest
      in (m2, changed # changes))"

definition completeHealthChecks :: "BackendManager \<Rightarrow> (nat \<times> int \<times> bool) list \<Rightarrow> BackendManager" where
  "completeHealthChecks m results =
     (let (m1, changes) = probeResultsArrive m results in finishHealthChecks m1 changes)"

definition allTableCurrent :: "BackendManager \<Rightarrow> bool" where
  "allTableCurrent m = (backendsIndexed m \<and> allAliasTable m = buildAliasTable (backends m))"

text \<open>A pool of two backends, \<open>BACKEND_LIST = "http://a/|3,http://b/|1"\<close>, created at time 0.\<close>

definition examplePool :: BackendManager where
  "examplePool = newBackendManager 0 [(''http://a/'', 3), (''http://b/'', 1)] 30000 False"

section \<open>Transport resolution and path rewriting (index.ts)\<close>

text \<open>
  A string is the sequence of bytes of its UTF-8 encoding; case mapping and trimming act on
  the ASCII letters and the ASCII white space. A request is its method, the parts of its URL
  (origin, path, and the search text with its leading \<open>?\<close>, or empty) and its headers, an
  association list with lower-case names.
\<close>

definition toLowerChar :: "char \<Rightarrow> char" where
  "toLowerChar c =
     (let n = (of_char c :: nat) in if 65 \<le> n \<and> n \<le> 90 then char_of (n + 32) else c)"

definition toUpperChar :: "char \<Rightarrow> char" where
  "toUpperChar c =
     (let n = (of_char c :: nat) in if 97 \<le> n \<and> n \<le> 122 then char_of (n - 32) else c)"

definition toLowerCase :: "string \<Rightarrow> string" where
  "toLowerCase s = map toLowerChar s"

definition toUpperCase :: "string \<Rightarrow> string" where
  "toUpperCase s = map toUpperChar s"

definition startsWith :: "string \<Rightarrow> string \<Rightarrow> bool" where
  "startsWith s p = (take (length p) s = p)"

fun stringIncludes :: "string \<Rightarrow> string \<Rightarrow> bool" where
  "stringIncludes [] sub = (sub = [])"
| "stringIncludes (c # cs) sub = (startsWith (c # cs) sub \<or> stringIncludes cs sub)"

text \<open>\<open>s.split(sep)\<close> for a one-character separator.\<close>

fun splitOn :: "char \<Rightarrow> string \<Rightarrow> string list" where
  "splitOn sep [] = [[]]"
| "splitOn sep (c # cs) =
     (if c = sep then [] # splitOn sep cs
      else (case splitOn sep cs of
              piece # pieces \<Rightarrow> (c # piece) # pieces
            | [] \<Rightarrow> [[c]]))"

fun joinWith :: "string \<Rightarrow> string list \<Rightarrow> string" where
  "joinWith sep [] = []"
| "joinWith sep [x] = x"
| "joinWith sep (x # y # rest) = x @ sep @ joinWith sep (y # rest)"

text \<open>
  The \<open>application/x-www-form-urlencoded\<close> parser and serialiser behind \<open>URLSearchParams\<close>.
  Percent-decoding gives bytes; \<open>utf8DecodeLossy\<close> is the decoder that turns them into text,
  every byte that does not continue a well-formed sequence becoming U+FFFD (bytes EF BF BD).
\<close>

definition hexValue :: "char \<Rightarrow> nat option" where
  "hexValue c =
     (let n = (of_char c :: nat)
      in if 48 \<le> n \<and> n \<le> 57 then Some (n - 48)
         else if 65 \<le> n \<and> n \<le> 70 then Some (n - 55)
         else if 97 \<le> n \<and> n \<le> 102 then Some (n - 87)
         else None)"

fun percentDecode :: "string \<Rightarrow> string" where
  "percentDecode [] = []"
| "percentDecode [c] = [c]"
| "percentDecode [c, d] = [c, d]"
| "percentDecode (c # h1 # h2 # rest) =
     (if c = CHR ''%'' then
        (case (hexValue h1, hexValue h2) of
           (Some a, Some b) \<Rightarrow> char_of (16 * a + b) # percentDecode rest
         | _ \<Rightarrow> c # percentDecode (h1 # h2 # rest))
      else c # percentDecode (h1 # h2 # rest))"

definition REPLACEMENT_CHARACTER :: string where
  "REPLACEMENT_CHARACTER = [char_of (0xEF :: nat), char_of (0xBF :: nat), char_of (0xBD :: nat)]"

text \<open>
  The decoder's state: the number of continuation bytes still needed, the bounds for the next
  one, and the bytes of the sequence read so far.
\<close>

function utf8DecodeFrom :: "nat \<Rightarrow> nat \<Rightarrow> nat \<Rightarrow> string \<Rightarrow> string \<Rightarrow> string" where
  "utf8DecodeFrom needed lower upper seen [] = (if needed = 0 then [] else REPLACEMENT_CHARACTER)"
| "utf8DecodeFrom needed lower upper seen (c # cs) =
     (let b = (of_char c :: nat)
      in if needed = 0 then
           (if b \<le> 0x7F then c # utf8DecodeFrom 0 0x80 0xBF [] cs
            else if 0xC2 \<le> b \<and> b \<le> 0xDF then utf8DecodeFrom 1 0x80 0xBF [c] cs
            else if 0xE0 \<le> b \<and> b \<le> 0xEF then
              utf8DecodeFrom 2 (if b = 0xE0 then 0xA0 else 0x80) (if b = 0xED then 0x9F else 0xBF) [c] cs
            else if 0xF0 \<le> b \<and> b \<le> 0xF4 then
              utf8DecodeFrom 3 (if b = 0xF0 then 0x90 else 0x80) (if b = 0xF4 then 0x8F else 0xBF) [c] cs
            else REPLACEMENT_CHARACTER @ utf8DecodeFrom 0 0x80 0xBF [] cs)
         else if b < lower \<or> upper < b then
           REPLACEMENT_CHARACTER @ utf8DecodeFrom 0 0x80 0xBF [] (c # cs)
         else if needed = 1 then seen @ [c] @ utf8DecodeFrom 0 0x80 0xBF [] cs
         else utf8DecodeFrom (needed - 1) 0x80 0xBF (seen @ [c]) cs)"
  by pat_completeness auto
termination
  by (relation "measures [\<lambda>(needed, lower, upper, seen, cs). length cs,
                          \<lambda>(needed, lower, upper, seen, cs). needed]") auto

declare utf8DecodeFrom.simps [simp del]

definition utf8DecodeLossy :: "string \<Rightarrow> string" where
  "utf8DecodeLossy bytes = utf8DecodeFrom 0 0x80 0xBF [] bytes"

definition urlDecodeComponent :: "string \<Rightarrow> string" where
  "urlDecodeComponent s =
     utf8DecodeLossy (percentDecode (map (\<lambda>c. if c = CHR ''+'' then CHR '' '' else c) s))"

definition parsePair :: "string \<Rightarrow> string \<times> string" where
  "parsePair piece =
     (urlDecodeComponent (takeWhile (\<lambda>c. c \<noteq> CHR ''='') piece),
      urlDecodeComponent (drop 1 (dropWhile (\<lambda>c. c \<noteq> CHR ''='') piece)))"

definition parseSearch :: "string \<Rightarrow> (string \<times> string) list" where
  "parseSearch search =
     map parsePair (filter (\<lambda>piece. piece \<noteq> [])
                      (splitOn (CHR ''&'') (if startsWith search ''?'' then drop 1 search else search)))"

definition hexDigitUpper :: "nat \<Rightarrow> char" where
  "hexDigitUpper n = (if n < 10 then char_of (48 + n) else char_of (55 + n))"

definition urlEncodeByte :: "char \<Rightarrow> string" where
  "urlEncodeByte c =
     (let n = (of_char c :: nat)
      in if (48 \<le> n \<and> n \<le> 57) \<or> (65 \<le> n \<and> n \<le> 90) \<or> (97 \<le> n \<and> n \<le> 122)
            \<or> c \<in> set ''*-._'' then [c]
         else if c = CHR '' '' then ''+''
         else [CHR ''%'', hexDigitUpper (n div 16), hexDigitUpper (n mod 16)])"

definition urlEncodeComponent :: "string \<Rightarrow> string" where
  "urlEncodeComponent s = concat (map urlEncodeByte s)"

definition serializeSearch :: "(string \<times> string) list \<Rightarrow> string" where
  "serializeSearch params =
     (if params = [] then []
      else ''?'' @ joinWith ''&''
             (map (\<lambda>(k, v). urlEncodeComponent k @ ''='' @ urlEncodeComponent v) params))"

record Request =
  httpMethod :: string
  origin :: string
  pathname :: string
  search :: string
  headers :: "(string \<times> string) list"

definition requestUrl :: "Request \<Rightarrow> string" where
  "requestUrl request = origin request @ pathname request @ search request"

definition searchParamsGet :: "Request \<Rightarrow> string \<Rightarrow> string option" where
  "searchParamsGet request name = map_of (parseSearch (search request)) name"

definition headersGet :: "Request \<Rightarrow> string \<Rightarrow> string option" where
  "headersGet request name = map_of (headers request) name"

datatype TransportType = Xhttp | Httpupgrade | Ws

definition SUPPORTED_TRANSPORTS :: "TransportType list" where
  "SUPPORTED_TRANSPORTS = [Xhttp, Httpupgrade, Ws]"

definition DEFAULT_TRANSPORT :: TransportType where
  "DEFAULT_TRANSPORT = Xhttp"

fun transportName :: "TransportType \<Rightarrow> string" where
  "transportName Xhttp = ''xhttp''"
| "transportName Httpupgrade = ''httpupgrade''"
| "transportName Ws = ''ws''"

text \<open>\<open>isTransportType\<close>, returning the transport a recognised name stands for.\<close>

definition asTransportType :: "string \<Rightarrow> TransportType option" where
  "asTransportType v = find (\<lambda>t. transportName t = v) SUPPORTED_TRANSPORTS"

definition getDefaultTransport :: "string option \<Rightarrow> TransportType" where
  "getDefaultTransport envTransport =
     (case asTransportType (toLowerCase (case envTransport of Some v \<Rightarrow> v | None \<Rightarrow> [])) of
        Some configured \<Rightarrow> configured
      | None \<Rightarrow> DEFAULT_TRANSPORT)"

definition resolveTransport :: "Request \<Rightarrow> string option \<Rightarrow> TransportType option \<Rightarrow> TransportType" where
  "resolveTransport request envTransport pathTransport =
     (let fromQuery = toLowerCase (case searchParamsGet request ''transport'' of Some v \<Rightarrow> v | None \<Rightarrow> []);
          fromHeader = toLowerCase (case headersGet request ''x-transport-type'' of Some v \<Rightarrow> v | None \<Rightarrow> [])
      in case asTransportType fromQuery of
           Some t \<Rightarrow> t
         | None \<Rightarrow>
             (case asTransportType fromHeader of
                Some t \<Rightarrow> t
              | None \<Rightarrow>
                  (case pathTransport of
                     Some t \<Rightarrow> t
                   | None \<Rightarrow> getDefaultTransport envTransport)))"

fun parsePathTransportFrom :: "TransportType list \<Rightarrow> string \<Rightarrow> TransportType option \<times> string" where
  "parsePathTransportFrom [] path = (None, path)"
| "parsePathTransportFrom (transport # rest) path =
     (let prefix = ''/'' @ transportName transport
      in if path = prefix then (Some transport, ''/'')
         else if startsWith path (prefix @ ''/'') then (Some transport, drop (length prefix) path)
         else parsePathTransportFrom rest path)"

definition parsePathTransport :: "string \<Rightarrow> TransportType option \<times> string" where
  "parsePathTransport path = parsePathTransportFrom SUPPORTED_TRANSPORTS path"

text \<open>\<open>buildForwardRequest\<close>: a new request to \<open>url\<close> with the method upper-cased.\<close>

definition buildForwardRequest ::
  "Request \<Rightarrow> string \<Rightarrow> string \<Rightarrow> (string \<times> string) list \<Rightarrow> Request" where
  "buildForwardRequest request path searchText hs =
     request\<lparr>httpMethod := toUpperCase (httpMethod request), pathname := path, search := searchText,
             headers := hs\<rparr>"

definition rewritePath :: "Request \<Rightarrow> string \<Rightarrow> Request" where
  "rewritePath request path = buildForwardRequest request path (search request) (headers request)"

definition toForwardedRequest ::
  "Request \<Rightarrow> TransportType \<Rightarrow> TransportType option \<Rightarrow> string \<Rightarrow> string \<Rightarrow> Request" where
  "toForwardedRequest request finalTransport pathTransport forwardedPath originalPath =
     (if pathTransport = Some finalTransport \<and> forwardedPath \<noteq> originalPath
      then rewritePath request forwardedPath
      else request)"

text \<open>
  \<open>stripRoutingSelectors\<close>: deleting the parameter writes the remaining ones back to the URL in
  serialised form; a URL in which no parameter is deleted keeps its search text.
\<close>

definition stripRoutingSelectors :: "Request \<Rightarrow> Request" where
  "stripRoutingSelectors request =
     (let hasTransportHeader = (headersGet request ''x-transport-type'' \<noteq> None);
          maybeTransportQuery = stringIncludes (requestUrl request) ''transport=''
      in if \<not> hasTransportHeader \<and> \<not> maybeTransportQuery then request
         else
           (let params = parseSearch (search request);
                hasParam = (maybeTransportQuery \<and> map_of params ''transport'' \<noteq> None);
                searchText = (if hasParam then serializeSearch (AList.delete ''transport'' params)
                              else search request);
                hs = (if hasTransportHeader then AList.delete ''x-transport-type'' (headers request)
                      else headers request);
                changed = (hasParam \<or> hasTransportHeader)
            in if \<not> changed then request
               else buildForwardRequest request (pathname request) searchText hs))"

text \<open>
  The routing steps of \<open>fetch\<close>, from \<open>parsePathTransport\<close> to \<open>stripRoutingSelectors\<close>: the
  transport whose handler is called, and the request handed to it. The handler sends the
  request's path and search text to the upstream unchanged (\<open>parseBackendUrlWithOverride\<close>).
\<close>

definition routeRequest :: "string option \<Rightarrow> Request \<Rightarrow> TransportType \<times> Request" where
  "routeRequest envTransport request =
     (let (pathTransport, forwardedPath) = parsePathTransport (pathname request);
          transport = resolveTransport request envTransport pathTransport;
          transportRoutedRequest =
            toForwardedRequest request transport pathTransport forwardedPath (pathname request);
          forwardedRequest = stripRoutingSelectors transportRoutedRequest
      in (transport, forwardedRequest))"

definition parseBackendUrlWithOverride :: "string \<Rightarrow> Request \<Rightarrow> string" where
  "parseBackendUrlWithOverride backendOrigin inbound = backendOrigin @ pathname inbound @ search inbound"

section \<open>Identity extraction (uuid-manager.ts)\<close>

definition isHexDigit :: "char \<Rightarrow> bool" where
  "isHexDigit c = (c \<in> set ''0123456789abcdefABCDEF'')"

text \<open>\<open>UUID_REGEX\<close>, one character class per position; the flag \<open>i\<close> admits both cases.\<close>

definition UUID_REGEX :: "(char \<Rightarrow> bool) list" where
  "UUID_REGEX =
     replicate 8 isHexDigit @ [\<lambda>c. c = CHR ''-''] @
     replicate 4 isHexDigit @ [\<lambda>c. c = CHR ''-''] @
     [\<lambda>c. c \<in> set ''12345678''] @ replicate 3 isHexDigit @ [\<lambda>c. c = CHR ''-''] @
     [\<lambda>c. c \<in> set ''89abAB''] @ replicate 3 isHexDigit @ [\<lambda>c. c = CHR ''-''] @
     replicate 12 isHexDigit"

definition regexTest :: "(char \<Rightarrow> bool) list \<Rightarrow> string \<Rightarrow> bool" where
  "regexTest classes s = list_all2 (\<lambda>cls c. cls c) classes s"

definition isValidUuid :: "string \<Rightarrow> bool" where
  "isValidUuid v = regexTest UUID_REGEX (js_trim v)"

definition normalizeUuid :: "string \<Rightarrow> string" where
  "normalizeUuid v = toLowerCase (js_trim v)"

text \<open>\<open>decodeURIComponent\<close> is a parameter, \<open>None\<close> where it throws.\<close>

definition decodePathSegment :: "(string \<Rightarrow> string option) \<Rightarrow> string \<Rightarrow> string" where
  "decodePathSegment decodeURIComponent segment =
     (case decodeURIComponent segment of Some decoded \<Rightarrow> decoded | None \<Rightarrow> segment)"

definition pathSegments :: "(string \<Rightarrow> string option) \<Rightarrow> string \<Rightarrow> string list" where
  "pathSegments decodeURIComponent path =
     map (decodePathSegment decodeURIComponent)
       (filter (\<lambda>segment. segment \<noteq> []) (splitOn (CHR ''/'') path))"

definition extractUuidFromPath :: "(string \<Rightarrow> string option) \<Rightarrow> Request \<Rightarrow> string option" where
  "extractUuidFromPath decodeURIComponent request =
     (let segments = pathSegments decodeURIComponent (pathname request);
          first = js_at segments 0;
          second = js_at segments 1
      in case first of
           None \<Rightarrow> None
         | Some f \<Rightarrow>
             if f \<noteq> [] \<and> isValidUuid f then Some (normalizeUuid f)
             else
               (case second of
                  None \<Rightarrow> None
                | Some sn \<Rightarrow>
                    if toLowerCase f = ''sub'' \<and> sn \<noteq> [] \<and> isValidUuid sn
                    then Some (normalizeUuid sn)
                    else None))"

definition extractUuidFromRequest :: "(string \<Rightarrow> string option) \<Rightarrow> Request \<Rightarrow> string option" where
  "extractUuidFromRequest decodeURIComponent request =
     (case searchParamsGet request ''id'' of
        Some fromQuery \<Rightarrow>
          if fromQuery \<noteq> [] \<and> isValidUuid fromQuery then Some (normalizeUuid fromQuery)
          else extractUuidFromPath decodeURIComponent request
      | None \<Rightarrow> extractUuidFromPath decodeURIComponent request)"

text \<open>The request of scenario 5 and a request naming two identities.\<close>

definition scenario5 :: Request where
  "scenario5 =
     \<lparr>httpMethod = ''GET'', origin = ''https://edge.example'', pathname = ''/xhttp/foo'',
      search = ''?transport=ws&ed=0'',
      headers = [(''connection'', ''Upgrade''), (''upgrade'', ''websocket'')]\<rparr>"

definition twoIdentities :: Request where
  "twoIdentities =
     \<lparr>httpMethod = ''GET'', origin = ''https://edge.example'',
      pathname = ''/aaaaaaaa-aaaa-4aaa-8aaa-aaaaaaaaaaaa'',
      search = ''?id=BBBBBBBB-BBBB-4BBB-8BBB-BBBBBBBBBBBB'',
      headers = [(''connection'', ''Upgrade''), (''upgrade'', ''websocket'')]\<rparr>"

section \<open>IP rate limiter (ratelimit.ts)\<close>

text \<open>
  \<open>Date.now()\<close> is the parameter \<open>now\<close> of every operation, in milliseconds. Token counts
  are rationals. A \<open>Map\<close> is an association list in insertion order (\<open>AList.update\<close> keeps
  the place of an existing key and appends a new one, as \<open>Map.set\<close> does); a \<open>Set\<close> of
  strings is a list in insertion order without repetition. The state object of an address
  is mutated in place in the source: here it is read from the map and written back.
\<close>

definition ONE_MINUTE_MS :: int where
  "ONE_MINUTE_MS = 60000"

definition CLEANUP_INTERVAL_MS :: int where
  "CLEANUP_INTERVAL_MS = 30000"

definition IDLE_STATE_TTL_MS :: int where
  "IDLE_STATE_TTL_MS = ONE_MINUTE_MS"

definition CONCURRENT_LIMIT_RETRY_AFTER_SECONDS :: int where
  "CONCURRENT_LIMIT_RETRY_AFTER_SECONDS = 10"

definition UNKNOWN_IP :: string where
  "UNKNOWN_IP = ''unknown''"

definition TOKEN_EPSILON :: rat where
  "TOKEN_EPSILON = 1 / 1000000000"

definition setAdd :: "'a \<Rightarrow> 'a list \<Rightarrow> 'a list" where
  "setAdd x xs = (if x \<in> set xs then xs else xs @ [x])"

record IpTokenBucketState =
  activeConnectionIds :: "string list"
  tokens :: rat
  lastRefillAt :: int
  lastSeenAt :: int

record ConnectionRateLimiter =
  maxConnPerIp :: int
  maxConnPerMin :: int
  bucketCapacity :: rat
  refillTokensPerMs :: rat
  stateByIp :: "(string \<times> IpTokenBucketState) list"
  nextCleanupAt :: int

definition rateLimiter_normalizeIp :: "string \<Rightarrow> string" where
  "rateLimiter_normalizeIp ip = (let trimmed = js_trim ip in if length trimmed > 0 then trimmed else UNKNOWN_IP)"

definition newConnectionRateLimiter :: "int \<Rightarrow> int \<Rightarrow> int \<Rightarrow> ConnectionRateLimiter" where
  "newConnectionRateLimiter now perIp perMin =
     \<lparr>maxConnPerIp = max 1 perIp,
      maxConnPerMin = max 1 perMin,
      bucketCapacity = of_int (max 1 perMin),
      refillTokensPerMs = of_int (max 1 perMin) / of_int ONE_MINUTE_MS,
      stateByIp = [],
      nextCleanupAt = now + CLEANUP_INTERVAL_MS\<rparr>"

definition refillTokens :: "ConnectionRateLimiter \<Rightarrow> IpTokenBucketState \<Rightarrow> int \<Rightarrow> IpTokenBucketState" where
  "refillTokens l state now =
     (if now \<le> lastRefillAt state then state
      else
        (let elapsedMs = now - lastRefillAt state;
             replenished = of_int elapsedMs * refillTokensPerMs l
         in state\<lparr>tokens := min (bucketCapacity l) (tokens state + replenished),
                  lastRefillAt := now\<rparr>))"

text \<open>The condition under which \<open>deleteIfIdle\<close> deletes the entry.\<close>

definition isIdle :: "ConnectionRateLimiter \<Rightarrow> IpTokenBucketState \<Rightarrow> int \<Rightarrow> bool" where
  "isIdle l state now =
     (\<not> length (activeConnectionIds state) > 0
      \<and> tokens state \<ge> bucketCapacity l - TOKEN_EPSILON
      \<and> now - lastSeenAt state \<ge> IDLE_STATE_TTL_MS)"

definition deleteIfIdle ::
  "ConnectionRateLimiter \<Rightarrow> string \<Rightarrow> IpTokenBucketState \<Rightarrow> int \<Rightarrow> ConnectionRateLimiter" where
  "deleteIfIdle l ip state now =
     (if isIdle l state now then l\<lparr>stateByIp := AList.delete ip (stateByIp l)\<rparr> else l)"

definition cleanupOldAttempts :: "ConnectionRateLimiter \<Rightarrow> int \<Rightarrow> ConnectionRateLimiter" where
  "cleanupOldAttempts l now =
     l\<lparr>stateByIp :=
          List.map_filter
            (\<lambda>(ip, state).
               let refilled = refillTokens l state now
               in if isIdle l refilled now then None else Some (ip, refilled))
            (stateByIp l),
        nextCleanupAt := now + CLEANUP_INTERVAL_MS\<rparr>"

definition rateLimiter_maybeCleanup :: "ConnectionRateLimiter \<Rightarrow> int \<Rightarrow> ConnectionRateLimiter" where
  "rateLimiter_maybeCleanup l now = (if now < nextCleanupAt l then l else cleanupOldAttempts l now)"

definition getOrCreateState ::
  "ConnectionRateLimiter \<Rightarrow> string \<Rightarrow> int \<Rightarrow> IpTokenBucketState \<times> ConnectionRateLimiter" where
  "getOrCreateState l ip now =
     (case map_of (stateByIp l) ip of
        Some existing \<Rightarrow> (existing, l)
      | None \<Rightarrow>
          (let created = \<lparr>activeConnectionIds = [], tokens = bucketCapacity l,
                          lastRefillAt = now, lastSeenAt = now\<rparr>
           in (created, l\<lparr>stateByIp := AList.update ip created (stateByIp l)\<rparr>)))"

definition putState :: "ConnectionRateLimiter \<Rightarrow> string \<Rightarrow> IpTokenBucketState \<Rightarrow> ConnectionRateLimiter" where
  "putState l ip state = l\<lparr>stateByIp := AList.update ip state (stateByIp l)\<rparr>"

definition rateLimiter_checkConnectionAllowed ::
  "ConnectionRateLimiter \<Rightarrow> string \<Rightarrow> int \<Rightarrow> bool \<times> ConnectionRateLimiter" where
  "rateLimiter_checkConnectionAllowed l ip now =
     (let l1 = rateLimiter_maybeCleanup l now;
          normalizedIp = rateLimiter_normalizeIp ip;
          (state0, l2) = getOrCreateState l1 normalizedIp now;
          state1 = (refillTokens l2 state0 now)\<lparr>lastSeenAt := now\<rparr>;
          l3 = putState l2 normalizedIp state1
      in if int (length (activeConnectionIds state1)) \<ge> maxConnPerIp l3 then (False, l3)
         else (tokens state1 + TOKEN_EPSILON \<ge> 1, l3))"

definition rateLimiter_registerConnection ::
  "ConnectionRateLimiter \<Rightarrow> string \<Rightarrow> string \<Rightarrow> int \<Rightarrow> ConnectionRateLimiter" where
  "rateLimiter_registerConnection l ip connId now =
     (let l1 = rateLimiter_maybeCleanup l now;
          normalizedIp = rateLimiter_normalizeIp ip;
          (state0, l2) = getOrCreateState l1 normalizedIp now;
          state1 = refillTokens l2 state0 now
      in if connId \<in> set (activeConnectionIds state1)
         then putState l2 normalizedIp (state1\<lparr>lastSeenAt := now\<rparr>)
         else
           (let state2 = state1\<lparr>activeConnectionIds := setAdd connId (activeConnectionIds state1)\<rparr>;
                state3 = (if tokens state2 + TOKEN_EPSILON \<ge> 1
                          then state2\<lparr>tokens := max 0 (tokens state2 - 1)\<rparr>
                          else state2\<lparr>tokens := 0\<rparr>)
            in putState l2 normalizedIp (state3\<lparr>lastSeenAt := now\<rparr>)))"

definition rateLimiter_unregisterConnection ::
  "ConnectionRateLimiter \<Rightarrow> string \<Rightarrow> string \<Rightarrow> int \<Rightarrow> ConnectionRateLimiter" where
  "rateLimiter_unregisterConnection l ip connId now =
     (let l1 = rateLimiter_maybeCleanup l now;
          normalizedIp = rateLimiter_normalizeIp ip
      in case map_of (stateByIp l1) normalizedIp of
           None \<Rightarrow> l1
         | Some state0 \<Rightarrow>
             (let state1 = (if connId \<in> set (activeConnectionIds state0)
                            then state0\<lparr>activeConnectionIds := removeAll connId (activeConnectionIds state0),
                                        lastSeenAt := now\<rparr>
                            else state0);
                  l2 = putState l1 normalizedIp state1
              in deleteIfIdle l2 normalizedIp state1 now))"

definition getRetryAfterSeconds ::
  "ConnectionRateLimiter \<Rightarrow> string \<Rightarrow> int \<Rightarrow> int \<times> ConnectionRateLimiter" where
  "getRetryAfterSeconds l ip now =
     (let l1 = rateLimiter_maybeCleanup l now;
          normalizedIp = rateLimiter_normalizeIp ip
      in case map_of (stateByIp l1) normalizedIp of
           None \<Rightarrow> (1, l1)
         | Some state0 \<Rightarrow>
             (let state1 = refillTokens l1 state0 now;
                  l2 = putState l1 normalizedIp state1
              in if int (length (activeConnectionIds state1)) \<ge> maxConnPerIp l2
                 then (CONCURRENT_LIMIT_RETRY_AFTER_SECONDS, l2)
                 else if tokens state1 + TOKEN_EPSILON \<ge> 1 then (1, l2)
                 else
                   (let missingTokens = max 0 (1 - tokens state1);
                        refillMs = (if refillTokensPerMs l2 > 0 then missingTokens / refillTokensPerMs l2
                                    else of_int ONE_MINUTE_MS);
                        boundedMs = max 1000 refillMs
                    in (max 1 \<lceil>boundedMs / 1000\<rceil>, l2))))"

text \<open>The token count and the active connection ids the limiter holds for an address.\<close>

definition tokensOf :: "ConnectionRateLimiter \<Rightarrow> string \<Rightarrow> rat option" where
  "tokensOf l ip = map_option tokens (map_of (stateByIp l) (rateLimiter_normalizeIp ip))"

definition activeOf :: "ConnectionRateLimiter \<Rightarrow> string \<Rightarrow> string list" where
  "activeOf l ip =
     (case map_of (stateByIp l) (rateLimiter_normalizeIp ip) of
        Some state \<Rightarrow> activeConnectionIds state
      | None \<Rightarrow> [])"

text \<open>
  The common beginning of \<open>checkConnectionAllowed\<close> and \<open>registerConnection\<close>: cleanup,
  lookup or creation of the state, refill. \<open>refilled\<close> is the state they then work on and
  \<open>prepared\<close> the limiter holding it.
\<close>

definition refilled :: "ConnectionRateLimiter \<Rightarrow> string \<Rightarrow> int \<Rightarrow> IpTokenBucketState" where
  "refilled l ip now =
     (let l1 = rateLimiter_maybeCleanup l now;
          (state0, l2) = getOrCreateState l1 (rateLimiter_normalizeIp ip) now
      in refillTokens l2 state0 now)"

definition prepared :: "ConnectionRateLimiter \<Rightarrow> string \<Rightarrow> int \<Rightarrow> ConnectionRateLimiter" where
  "prepared l ip now =
     snd (getOrCreateState (rateLimiter_maybeCleanup l now) (rateLimiter_normalizeIp ip) now)"

text \<open>A limiter of capacity 5 that has admitted and registered one connection at time 1000.\<close>

definition exampleLimiter :: ConnectionRateLimiter where
  "exampleLimiter =
     rateLimiter_registerConnection
       (snd (rateLimiter_checkConnectionAllowed (newConnectionRateLimiter 0 2 5) ''192.0.2.1'' 1000))
       ''192.0.2.1'' ''conn-1'' 1000"

section \<open>Subscription cache (subscription/cache)\<close>

text \<open>
  A response is its status and its \<open>Content-Length\<close> header text. \<open>Number(text)\<close> is the
  parameter \<open>toNumber\<close>, \<open>None\<close> where the result is not finite. The doubly linked list,
  head first (most recently used first), and the map \<open>nodesByKey\<close> hold the same nodes:
  both are the association list \<open>nodes\<close>, whose last element is the tail.
\<close>

definition DEFAULT_CACHE_TTL_MS :: int where
  "DEFAULT_CACHE_TTL_MS = 5 * 60000"

definition DEFAULT_MAX_CACHE_ENTRIES :: int where
  "DEFAULT_MAX_CACHE_ENTRIES = 256"

definition DEFAULT_MAX_CACHE_BYTES :: int where
  "DEFAULT_MAX_CACHE_BYTES = 20 * 1024 * 1024"

definition DEFAULT_ENTRY_SIZE_BYTES :: int where
  "DEFAULT_ENTRY_SIZE_BYTES = 4 * 1024"

definition CACHE_CLEANUP_INTERVAL_MS :: int where
  "CACHE_CLEANUP_INTERVAL_MS = 30000"

record CachedResponse =
  status :: int
  contentLengthHeader :: "string option"

record SubscriptionCacheEntry =
  expiresAt :: int
  response :: CachedResponse
  sizeBytes :: int

record SubscriptionCache =
  ttlMs :: int
  maxEntries :: int
  maxBytes :: int
  nodes :: "(string \<times> SubscriptionCacheEntry) list"
  totalBytes :: int
  cacheNextCleanupAt :: int

definition buildCacheKey :: "string \<Rightarrow> string \<Rightarrow> string" where
  "buildCacheKey service token = toLowerCase service @ '':'' @ token"

definition parseContentLength :: "(string \<Rightarrow> rat option) \<Rightarrow> string option \<Rightarrow> int option" where
  "parseContentLength toNumber headerValue =
     (case headerValue of
        None \<Rightarrow> None
      | Some h \<Rightarrow>
          if h = [] then None
          else
            (case toNumber h of
               None \<Rightarrow> None
             | Some parsed \<Rightarrow>
                 if parsed \<noteq> of_int \<lfloor>parsed\<rfloor> \<or> parsed < 0 then None else Some \<lfloor>parsed\<rfloor>))"

definition estimateResponseSize :: "(string \<Rightarrow> rat option) \<Rightarrow> CachedResponse \<Rightarrow> int" where
  "estimateResponseSize toNumber r =
     (case parseContentLength toNumber (contentLengthHeader r) of
        Some fromHeader \<Rightarrow> fromHeader
      | None \<Rightarrow> DEFAULT_ENTRY_SIZE_BYTES)"

definition newSubscriptionCache :: "int \<Rightarrow> int \<Rightarrow> int \<Rightarrow> int \<Rightarrow> SubscriptionCache" where
  "newSubscriptionCache now ttl entriesCap bytesCap =
     \<lparr>ttlMs = max 1000 ttl,
      maxEntries = max 1 entriesCap,
      maxBytes = max DEFAULT_ENTRY_SIZE_BYTES bytesCap,
      nodes = [],
      totalBytes = 0,
      cacheNextCleanupAt = now + min (max 1000 ttl) CACHE_CLEANUP_INTERVAL_MS\<rparr>"

text \<open>\<open>removeNode\<close> of the node stored under \<open>k\<close>.\<close>

definition removeNode :: "SubscriptionCache \<Rightarrow> string \<Rightarrow> SubscriptionCache" where
  "removeNode c k =
     (case map_of (nodes c) k of
        None \<Rightarrow> c
      | Some entry \<Rightarrow>
          c\<lparr>nodes := AList.delete k (nodes c),
            totalBytes := max 0 (totalBytes c - sizeBytes entry)\<rparr>)"

lemma length_delete_less:
  "k \<in> fst ` set al \<Longrightarrow> length (AList.delete k al) < length al"
proof (induction al)
  case Nil
  then show ?case by simp
next
  case (Cons p al)
  have le: "length (AList.delete k al) \<le> length al" by (rule AList.length_delete_le)
  show ?case
  proof (cases "fst p = k")
    case True
    then show ?thesis by (cases p) (simp add: AList.delete_eq less_Suc_eq_le)
  next
    case False
    then have "k \<in> fst ` set al" using Cons.prems by auto
    then have "length (AList.delete k al) < length al" by (rule Cons.IH)
    then show ?thesis using False by (cases p) (simp add: AList.delete_eq)
  qed
qed

function evictIfNeeded :: "SubscriptionCache \<Rightarrow> SubscriptionCache" where
  "evictIfNeeded c =
     (if int (length (nodes c)) > maxEntries c \<or> totalBytes c > maxBytes c then
        (if nodes c = [] then c else evictIfNeeded (removeNode c (fst (last (nodes c)))))
      else c)"
  by pat_completeness auto
termination
proof (relation "measure (\<lambda>c. length (nodes c))")
  show "wf (measure (\<lambda>c. length (nodes c)))" by simp
next
  fix c :: SubscriptionCache
  assume ne: "nodes c \<noteq> []"
  define k where "k = fst (last (nodes c))"
  have "last (nodes c) \<in> set (nodes c)" using ne by simp
  then have mem: "k \<in> fst ` set (nodes c)" unfolding k_def by (rule imageI)
  then obtain e where e: "map_of (nodes c) k = Some e"
    by (cases "map_of (nodes c) k") (auto simp: map_of_eq_None_iff)
  have "length (AList.delete k (nodes c)) < length (nodes c)"
    using mem by (rule length_delete_less)
  then show "(removeNode c (fst (last (nodes c))), c) \<in> measure (\<lambda>c. length (nodes c))"
    using e by (simp add: removeNode_def k_def)
qed

declare evictIfNeeded.simps [simp del]

text \<open>\<open>cleanup\<close> walks the list from the tail and removes the expired nodes.\<close>

definition cacheCleanup :: "SubscriptionCache \<Rightarrow> int \<Rightarrow> SubscriptionCache" where
  "cacheCleanup c now =
     (let c1 = fold (\<lambda>(k, entry) acc. if expiresAt entry \<le> now then removeNode acc k else acc)
                 (rev (nodes c)) c
      in (evictIfNeeded c1)\<lparr>cacheNextCleanupAt := now + min (ttlMs c) CACHE_CLEANUP_INTERVAL_MS\<rparr>)"

definition cacheMaybeCleanup :: "SubscriptionCache \<Rightarrow> int \<Rightarrow> SubscriptionCache" where
  "cacheMaybeCleanup c now = (if now < cacheNextCleanupAt c then c else cacheCleanup c now)"

definition cacheGet ::
  "SubscriptionCache \<Rightarrow> string \<Rightarrow> string \<Rightarrow> int \<Rightarrow> CachedResponse option \<times> SubscriptionCache" where
  "cacheGet c service token now =
     (let c1 = cacheMaybeCleanup c now;
          k = buildCacheKey service token
      in case map_of (nodes c1) k of
           None \<Rightarrow> (None, c1)
         | Some entry \<Rightarrow>
             if expiresAt entry \<le> now then (None, removeNode c1 k)
             else (Some (response entry), c1\<lparr>nodes := (k, entry) # AList.delete k (nodes c1)\<rparr>))"

definition cacheSet ::
  "(string \<Rightarrow> rat option) \<Rightarrow> SubscriptionCache \<Rightarrow> string \<Rightarrow> string \<Rightarrow> CachedResponse \<Rightarrow> int
     \<Rightarrow> SubscriptionCache" where
  "cacheSet toNumber c service token r now =
     (if status r \<noteq> 200 then c
      else
        (let c1 = cacheMaybeCleanup c now;
             k = buildCacheKey service token;
             size = estimateResponseSize toNumber r
         in if size > maxBytes c1 then removeNode c1 k
            else
              (let c2 = removeNode c1 k;
                   node = (k, \<lparr>expiresAt = now + ttlMs c2, response = r, sizeBytes = size\<rparr>);
                   c3 = c2\<lparr>nodes := node # nodes c2, totalBytes := totalBytes c2 + size\<rparr>
               in evictIfNeeded c3)))"

datatype cache_op =
    CacheGet string string int
  | CacheSet string string CachedResponse int
  | CacheCleanup int

fun applyCacheOp :: "(string \<Rightarrow> rat option) \<Rightarrow> SubscriptionCache \<Rightarrow> cache_op \<Rightarrow> SubscriptionCache" where
  "applyCacheOp toNumber c (CacheGet service token now) = snd (cacheGet c service token now)"
| "applyCacheOp toNumber c (CacheSet service token r now) = cacheSet toNumber c service token r now"
| "applyCacheOp toNumber c (CacheCleanup now) = cacheCleanup c now"

definition runCacheOps :: "(string \<Rightarrow> rat option) \<Rightarrow> SubscriptionCache \<Rightarrow> cache_op list \<Rightarrow> SubscriptionCache" where
  "runCacheOps toNumber c ops = foldl (applyCacheOp toNumber) c ops"

text \<open>
  The bookkeeping invariant of the cache: keys are stored once, sizes are not negative and the
  tracked total is the sum of the stored sizes; and the two bounds that eviction restores.
\<close>

definition entrySizes :: "(string \<times> SubscriptionCacheEntry) list \<Rightarrow> int list" where
  "entrySizes ns = map (\<lambda>(k, e). sizeBytes e) ns"

definition cacheInv :: "SubscriptionCache \<Rightarrow> bool" where
  "cacheInv c =
     (distinct (map fst (nodes c)) \<and> list_all (\<lambda>n. 0 \<le> n) (entrySizes (nodes c))
      \<and> totalBytes c = sum_list (entrySizes (nodes c))
      \<and> 0 \<le> maxEntries c \<and> 0 \<le> maxBytes c)"

definition cacheBounded :: "SubscriptionCache \<Rightarrow> bool" where
  "cacheBounded c = (int (length (nodes c)) \<le> maxEntries c \<and> totalBytes c \<le> maxBytes c)"

definition cacheOK :: "SubscriptionCache \<Rightarrow> bool" where
  "cacheOK c = (cacheInv c \<and> cacheBounded c)"

text \<open>Two entries of the default size in a cache of two entries and 8192 bytes.\<close>

definition exampleToNumber :: "string \<Rightarrow> rat option" where
  "exampleToNumber s = (if s = ''9000'' then Some 9000 else None)"

definition exampleCache :: SubscriptionCache where
  "exampleCache =
     runCacheOps exampleToNumber (newSubscriptionCache 0 5000 2 8192)
       [CacheSet ''a'' ''t'' \<lparr>status = 200, contentLengthHeader = None\<rparr> 10,
        CacheSet ''b'' ''t'' \<lparr>status = 200, contentLengthHeader = None\<rparr> 20]"

section \<open>Subscription proxy (subscription/proxy.ts)\<close>

text \<open>
  An upstream response is its status, its \<open>Content-Length\<close> header text and its body: \<open>None\<close>
  for a null body, else the chunks that the reader delivers, in order, and how the stream ends
  after them. \<open>Number(text)\<close> is the parameter \<open>toNumber\<close>, \<open>None\<close> where the result is not
  finite. A thrown error is known by its name. The parameter \<open>maxBytes\<close> of the source is
  \<open>limitBytes\<close> here.
\<close>

type_synonym byte = "8 word"

datatype thrown = MaxSizeError | AbortError | OtherError

datatype stream_end = StreamDone | StreamAborted | StreamFailed

record UpstreamResponse =
  upstreamStatus :: int
  upstreamContentLength :: "string option"
  upstreamBody :: "(byte list list \<times> stream_end) option"

datatype response_body = TextBody string | BytesBody "byte list"

record ClientResponse =
  responseStatus :: int
  responseBody :: response_body

record SubscriptionTarget =
  targetName :: string
  targetUrl :: string
  targetPort :: int
  targetPath :: string

record SubscriptionRoute =
  routeService :: string
  routeToken :: string

record SubscriptionProxyResult =
  resultService :: string
  resultToken :: string
  resultResponse :: ClientResponse

definition DEFAULT_SUBSCRIPTION_SERVICE :: string where
  "DEFAULT_SUBSCRIPTION_SERVICE = ''default''"

definition MAX_RESPONSE_SIZE_BYTES :: nat where
  "MAX_RESPONSE_SIZE_BYTES = 10 * 1024 * 1024"

definition INITIAL_READ_BUFFER_BYTES :: nat where
  "INITIAL_READ_BUFFER_BYTES = 16 * 1024"

definition normalizeServiceName :: "string \<Rightarrow> string" where
  "normalizeServiceName v =
     (let trimmed = toLowerCase (js_trim v)
      in if length trimmed > 0 then trimmed else DEFAULT_SUBSCRIPTION_SERVICE)"

definition resolveSubscriptionTarget :: "string \<Rightarrow> SubscriptionTarget list \<Rightarrow> SubscriptionTarget option" where
  "resolveSubscriptionTarget service targets =
     (if length targets = 0 then None
      else
        (let normalizedService = normalizeServiceName service
         in case find (\<lambda>t. toLowerCase (targetName t) = normalizedService) targets of
              Some t \<Rightarrow> Some t
            | None \<Rightarrow> Some (hd targets)))"

definition textResponse :: "int \<Rightarrow> string \<Rightarrow> ClientResponse" where
  "textResponse st message = \<lparr>responseStatus = st, responseBody = TextBody message\<rparr>"

definition proxyParseContentLength :: "(string \<Rightarrow> rat option) \<Rightarrow> string option \<Rightarrow> nat option" where
  "proxyParseContentLength toNumber headerValue =
     (case headerValue of
        None \<Rightarrow> None
      | Some h \<Rightarrow>
          if h = [] then None
          else
            (case toNumber h of
               None \<Rightarrow> None
             | Some parsed \<Rightarrow>
                 if parsed \<noteq> of_int \<lfloor>parsed\<rfloor> \<or> parsed < 0 then None else Some (nat \<lfloor>parsed\<rfloor>)))"

text \<open>
  \<open>target.set(source, offset)\<close> on byte arrays; \<open>None\<close> is the \<open>RangeError\<close> of a source that
  does not fit.
\<close>

definition bufferSet :: "byte list \<Rightarrow> byte list \<Rightarrow> nat \<Rightarrow> byte list option" where
  "bufferSet target source offset =
     (if offset + length source > length target then None
      else Some (take offset target @ source @ drop (offset + length source) target))"

text \<open>The capacity loop; \<open>None\<close> is a loop that never ends.\<close>

partial_function (option) growCapacity :: "nat \<Rightarrow> nat \<Rightarrow> nat \<Rightarrow> nat option" where
  "growCapacity nextCapacity required limitBytes =
     (if nextCapacity < required \<and> nextCapacity < limitBytes
      then growCapacity (min limitBytes (nextCapacity * 2)) required limitBytes
      else Some nextCapacity)"

text \<open>
  The read loop, one chunk at a step, on the buffer and \<open>totalLength\<close>. The result is \<open>None\<close>
  when the loop never returns, \<open>Inl\<close> of the error thrown, else the buffer and the total.
\<close>

fun readLoop ::
  "nat \<Rightarrow> byte list \<Rightarrow> nat \<Rightarrow> byte list list \<Rightarrow> stream_end \<Rightarrow> (thrown + byte list \<times> nat) option" where
  "readLoop limitBytes buffer totalLength [] ending =
     (case ending of
        StreamDone \<Rightarrow> Some (Inr (buffer, totalLength))
      | StreamAborted \<Rightarrow> Some (Inl AbortError)
      | StreamFailed \<Rightarrow> Some (Inl OtherError))"
| "readLoop limitBytes buffer totalLength (chunk # rest) ending =
     (let total = totalLength + length chunk
      in if total > limitBytes then Some (Inl MaxSizeError)
         else if total > length buffer then
           (case growCapacity (length buffer) total limitBytes of
              None \<Rightarrow> None
            | Some nextCapacity \<Rightarrow>
                if nextCapacity < total then Some (Inl MaxSizeError)
                else
                  (case bufferSet (replicate nextCapacity 0) (take (total - length chunk) buffer) 0 of
                     None \<Rightarrow> Some (Inl OtherError)
                   | Some nextBuffer \<Rightarrow>
                       (case bufferSet nextBuffer chunk (total - length chunk) of
                          None \<Rightarrow> Some (Inl OtherError)
                        | Some written \<Rightarrow> readLoop limitBytes written total rest ending)))
         else
           (case bufferSet buffer chunk (total - length chunk) of
              None \<Rightarrow> Some (Inl OtherError)
            | Some written \<Rightarrow> readLoop limitBytes written total rest ending))"

definition readResponseBodyWithLimit ::
  "(string \<Rightarrow> rat option) \<Rightarrow> UpstreamResponse \<Rightarrow> nat \<Rightarrow> (thrown + byte list) option" where
  "readResponseBodyWithLimit toNumber resp limitBytes =
     (let contentLength = proxyParseContentLength toNumber (upstreamContentLength resp)
      in if (case contentLength of None \<Rightarrow> False | Some n \<Rightarrow> n > limitBytes) then Some (Inl MaxSizeError)
         else if contentLength = Some 0 then Some (Inr [])
         else
           (case upstreamBody resp of
              None \<Rightarrow> Some (Inr [])
            | Some (chunks, ending) \<Rightarrow>
                (let buffer = replicate
                       (max 1 (min limitBytes
                          (case contentLength of None \<Rightarrow> INITIAL_READ_BUFFER_BYTES | Some n \<Rightarrow> n))) 0
                 in case readLoop limitBytes buffer 0 chunks ending of
                      None \<Rightarrow> None
                    | Some (Inl e) \<Rightarrow> Some (Inl e)
                    | Some (Inr (filled, totalLength)) \<Rightarrow>
                        Some (Inr (if totalLength = length filled then filled
                                   else take totalLength filled)))))"

text \<open>
  \<open>proxySubscriptionRequest\<close> from the outcome of \<open>fetch\<close> on: the error it threw, or the upstream
  response. \<open>rewrite\<close> is \<open>preserveSubscriptionDomain\<close> on the payload, \<open>None\<close> where it throws.
  The result is \<open>None\<close> when the read never returns. The payload handed to \<open>new Response\<close>
  is never null, so the constructor throws for a status outside 200 to 599 and for the
  null-body statuses 204, 205 and 304; the \<open>catch\<close> block answers that error too.
\<close>

definition responseConstructorThrows :: "int \<Rightarrow> bool" where
  "responseConstructorThrows st = (st < 200 \<or> st > 599 \<or> st = 204 \<or> st = 205 \<or> st = 304)"

definition proxySubscriptionRequest ::
  "(string \<Rightarrow> rat option) \<Rightarrow> SubscriptionRoute \<Rightarrow> SubscriptionTarget list \<Rightarrow> bool
     \<Rightarrow> (byte list \<Rightarrow> byte list option) \<Rightarrow> thrown + UpstreamResponse \<Rightarrow> SubscriptionProxyResult option" where
  "proxySubscriptionRequest toNumber route targets preserveDomain rewrite fetched =
     (case resolveSubscriptionTarget (routeService route) targets of
        None \<Rightarrow>
          Some \<lparr>resultService = routeService route, resultToken = routeToken route,
                resultResponse = textResponse 503 ''No subscription target configured.''\<rparr>
      | Some target \<Rightarrow>
          (let outcome =
                 (case fetched of
                    Inl e \<Rightarrow> Some (Inl e)
                  | Inr upstreamResponse \<Rightarrow>
                      (case readResponseBodyWithLimit toNumber upstreamResponse MAX_RESPONSE_SIZE_BYTES of
                         None \<Rightarrow> None
                       | Some (Inl e) \<Rightarrow> Some (Inl e)
                       | Some (Inr payload) \<Rightarrow>
                           (case (if preserveDomain \<and> upstreamStatus upstreamResponse = 200
                                  then rewrite payload else Some payload) of
                              None \<Rightarrow> Some (Inl OtherError)
                            | Some processedPayload \<Rightarrow>
                                if responseConstructorThrows (upstreamStatus upstreamResponse)
                                then Some (Inl OtherError)
                                else Some (Inr \<lparr>responseStatus = upstreamStatus upstreamResponse,
                                                responseBody = BytesBody processedPayload\<rparr>))))
           in case outcome of
                None \<Rightarrow> None
              | Some (Inr clientResponse) \<Rightarrow>
                  Some \<lparr>resultService = targetName target, resultToken = routeToken route,
                        resultResponse = clientResponse\<rparr>
              | Some (Inl e) \<Rightarrow>
                  Some \<lparr>resultService = targetName target, resultToken = routeToken route,
                        resultResponse =
                          (if e = MaxSizeError
                           then textResponse 502 ''Subscription response exceeded size limit.''
                           else textResponse 502
                                  (if e = AbortError then ''Subscription upstream request timed out.''
                                   else ''Unable to reach subscription upstream service.''))\<rparr>))"

text \<open>A target, a route to it, a header value above the limit, and a body chunk of 10 MiB.\<close>

definition exampleDeclared :: "string \<Rightarrow> rat option" where
  "exampleDeclared s = (if s = ''20000000'' then Some 20000000 else None)"

definition exampleTarget :: SubscriptionTarget where
  "exampleTarget =
     \<lparr>targetName = ''default'', targetUrl = ''https://panel.example'', targetPort = 443,
      targetPath = ''/sub''\<rparr>"

definition exampleRoute :: SubscriptionRoute where
  "exampleRoute = \<lparr>routeService = ''default'', routeToken = ''t''\<rparr>"

definition tenMiB :: "byte list" where
  "tenMiB = replicate (10 * 1024 * 1024) 65"

section \<open>Socket bridge (utils/socket)\<close>

text \<open>
  The closure state of \<open>bridgeSockets\<close> is a record: the flags \<open>closed\<close> and
  \<open>onClosedNotified\<close>, whether the six listeners are attached, the two connection states, and
  the calls made so far on the sockets and the callbacks, oldest first. A close code is a finite
  number. Of the callbacks the model knows whether \<open>onClosed\<close> is given and whether
  \<open>onRelayError\<close> throws (an error thrown by \<open>onClosed\<close> or by \<open>socket.close\<close> is caught
  and ignored). What they do besides is outside the model, so a callback that calls back into
  the bridge is a later event of the sequence.
\<close>

datatype SocketConnectionState = Connecting | Open | Closing | Closed | Errored

datatype RelayDirection = ClientToBackend | BackendToClient

datatype socket_side = ClientSocket | BackendSocket

datatype bridge_call =
    RemoveListeners
  | SafeClose socket_side rat string
  | OnClosed
  | OnRelayError RelayDirection
  | Send RelayDirection

record BridgeCallbacks =
  hasOnClosed :: bool
  onRelayErrorThrows :: bool

record BridgeState =
  bridgeClosed :: bool
  onClosedNotified :: bool
  listening :: bool
  clientConn :: SocketConnectionState
  backendConn :: SocketConnectionState
  calls :: "bridge_call list"

definition sanitizeCloseCode :: "rat \<Rightarrow> rat" where
  "sanitizeCloseCode code =
     (if code = of_int \<lfloor>code\<rfloor> \<and> code \<ge> 1000 \<and> code \<le> 4999 \<and> code \<noteq> 1005 \<and> code \<noteq> 1006
      then code else 1011)"

definition safeClose :: "socket_side \<Rightarrow> rat \<Rightarrow> string \<Rightarrow> bridge_call" where
  "safeClose socket code reason = SafeClose socket (sanitizeCloseCode code) (take 123 reason)"

definition closeSocketPair :: "rat \<Rightarrow> string \<Rightarrow> bridge_call list" where
  "closeSocketPair code reason =
     [safeClose ClientSocket code reason, safeClose BackendSocket code reason]"

definition toSocketConnectionState :: "int \<Rightarrow> SocketConnectionState" where
  "toSocketConnectionState readyState =
     (if readyState = 0 then Connecting
      else if readyState = 1 then Open
      else if readyState = 2 then Closing
      else if readyState = 3 then Closed
      else Errored)"

definition logCall :: "bridge_call \<Rightarrow> BridgeState \<Rightarrow> BridgeState" where
  "logCall c s = s\<lparr>calls := calls s @ [c]\<rparr>"

definition closeBoth :: "BridgeCallbacks \<Rightarrow> BridgeState \<Rightarrow> rat \<Rightarrow> string \<Rightarrow> BridgeState" where
  "closeBoth cb s code reason =
     (if bridgeClosed s then s
      else
        (let s1 = s\<lparr>bridgeClosed := True, listening := False, clientConn := Closed,
                     backendConn := Closed,
                     calls := calls s @ [RemoveListeners] @ closeSocketPair code reason\<rparr>
         in if \<not> onClosedNotified s1 \<and> hasOnClosed cb
            then (logCall OnClosed s1)\<lparr>onClosedNotified := True\<rparr>
            else s1))"

definition onForwardFailure :: "BridgeCallbacks \<Rightarrow> BridgeState \<Rightarrow> RelayDirection \<Rightarrow> BridgeState" where
  "onForwardFailure cb s direction =
     (let s1 = logCall (OnRelayError direction) s
      in if onRelayErrorThrows cb then s1 else closeBoth cb s1 1011 ''Relay failure'')"

text \<open>
  \<open>forward\<close> of a payload that is not a \<open>Blob\<close>: \<open>destinationOpen\<close> is
  \<open>destination.readyState === 1\<close> and \<open>sendThrows\<close> says whether \<open>send\<close> throws.
\<close>

definition forward :: "BridgeCallbacks \<Rightarrow> BridgeState \<Rightarrow> RelayDirection \<Rightarrow> bool \<Rightarrow> bool \<Rightarrow> BridgeState" where
  "forward cb s direction destinationOpen sendThrows =
     (if bridgeClosed s \<or> \<not> destinationOpen then s
      else if sendThrows then onForwardFailure cb s direction
      else logCall (Send direction) s)"

text \<open>
  The two continuations of \<open>payload.arrayBuffer()\<close> for a \<open>Blob\<close>. An error thrown by
  \<open>onRelayError\<close> inside the first reaches the \<open>catch\<close> continuation, which reports again.
\<close>

definition blobResolved :: "BridgeCallbacks \<Rightarrow> BridgeState \<Rightarrow> RelayDirection \<Rightarrow> bool \<Rightarrow> BridgeState" where
  "blobResolved cb s direction sendThrows =
     (if bridgeClosed s then s
      else if sendThrows then
        (if onRelayErrorThrows cb
         then onForwardFailure cb (logCall (OnRelayError direction) s) direction
         else onForwardFailure cb s direction)
      else logCall (Send direction) s)"

definition blobRejected :: "BridgeCallbacks \<Rightarrow> BridgeState \<Rightarrow> RelayDirection \<Rightarrow> BridgeState" where
  "blobRejected cb s direction = onForwardFailure cb s direction"

definition onClientClose :: "BridgeCallbacks \<Rightarrow> BridgeState \<Rightarrow> rat \<Rightarrow> string \<Rightarrow> BridgeState" where
  "onClientClose cb s code reason =
     closeBoth cb (s\<lparr>clientConn := Closed\<rparr>) code
       (if reason = [] then ''Client closed connection'' else reason)"

definition onBackendClose :: "BridgeCallbacks \<Rightarrow> BridgeState \<Rightarrow> rat \<Rightarrow> string \<Rightarrow> BridgeState" where
  "onBackendClose cb s code reason =
     closeBoth cb (s\<lparr>backendConn := Closed\<rparr>) code
       (if reason = [] then ''Backend closed connection'' else reason)"

definition onClientError :: "BridgeCallbacks \<Rightarrow> BridgeState \<Rightarrow> BridgeState" where
  "onClientError cb s =
     (let s1 = logCall (OnRelayError ClientToBackend) (s\<lparr>clientConn := Errored\<rparr>)
      in if onRelayErrorThrows cb then s1 else closeBoth cb s1 1011 ''Client socket error'')"

definition onBackendError :: "BridgeCallbacks \<Rightarrow> BridgeState \<Rightarrow> BridgeState" where
  "onBackendError cb s =
     (let s1 = logCall (OnRelayError BackendToClient) (s\<lparr>backendConn := Errored\<rparr>)
      in if onRelayErrorThrows cb then s1 else closeBoth cb s1 1011 ''Backend socket error'')"

text \<open>The state when \<open>bridgeSockets\<close> has attached the listeners.\<close>

definition bridgeSockets :: "int \<Rightarrow> int \<Rightarrow> BridgeState" where
  "bridgeSockets clientReadyState backendReadyState =
     \<lparr>bridgeClosed = False, onClosedNotified = False, listening = True,
      clientConn = toSocketConnectionState clientReadyState,
      backendConn = toSocketConnectionState backendReadyState,
      calls = []\<rparr>"

text \<open>
  What can happen to a bridge: the socket events, which reach a handler only while the listeners
  are attached; the continuations of a \<open>Blob\<close> payload; and a call of the \<open>disconnect\<close> function
  handed to \<open>onReady\<close>.
\<close>

datatype bridge_event =
    ClientClose rat string
  | BackendClose rat string
  | ClientError
  | BackendError
  | ClientMessage bool bool
  | BackendMessage bool bool
  | BlobResolved RelayDirection bool
  | BlobRejected RelayDirection
  | Disconnect rat string

fun bridgeStep :: "BridgeCallbacks \<Rightarrow> BridgeState \<Rightarrow> bridge_event \<Rightarrow> BridgeState" where
  "bridgeStep cb s (ClientClose code reason) = (if listening s then onClientClose cb s code reason else s)"
| "bridgeStep cb s (BackendClose code reason) = (if listening s then onBackendClose cb s code reason else s)"
| "bridgeStep cb s ClientError = (if listening s then onClientError cb s else s)"
| "bridgeStep cb s BackendError = (if listening s then onBackendError cb s else s)"
| "bridgeStep cb s (ClientMessage destinationOpen sendThrows) =
     (if listening s then forward cb s ClientToBackend destinationOpen sendThrows else s)"
| "bridgeStep cb s (BackendMessage destinationOpen sendThrows) =
     (if listening s then forward cb s BackendToClient destinationOpen sendThrows else s)"
| "bridgeStep cb s (BlobResolved direction sendThrows) = blobResolved cb s direction sendThrows"
| "bridgeStep cb s (BlobRejected direction) = blobRejected cb s direction"
| "bridgeStep cb s (Disconnect code reason) = closeBoth cb s code reason"

definition runBridge :: "BridgeCallbacks \<Rightarrow> BridgeState \<Rightarrow> bridge_event list \<Rightarrow> BridgeState" where
  "runBridge cb s events = foldl (bridgeStep cb) s events"

definition isSafeClose :: "socket_side \<Rightarrow> bridge_call \<Rightarrow> bool" where
  "isSafeClose socket c = (case c of SafeClose sd code reason \<Rightarrow> sd = socket | _ \<Rightarrow> False)"

definition isTeardownCall :: "bridge_call \<Rightarrow> bool" where
  "isTeardownCall c =
     (case c of RemoveListeners \<Rightarrow> True | SafeClose sd code reason \<Rightarrow> True | OnClosed \<Rightarrow> True
      | _ \<Rightarrow> False)"

definition teardownCalls :: "BridgeState \<Rightarrow> bridge_call list" where
  "teardownCalls s = filter isTeardownCall (calls s)"

definition closesOf :: "socket_side \<Rightarrow> BridgeState \<Rightarrow> nat" where
  "closesOf socket s = length (filter (isSafeClose socket) (calls s))"

text \<open>
  A bridge is torn down when the calls of a teardown are there once, in the order of \<open>closeBoth\<close>;
  before that none of them is there.
\<close>

definition tornDown :: "BridgeCallbacks \<Rightarrow> BridgeState \<Rightarrow> bool" where
  "tornDown cb s =
     (\<exists>code reason.
        teardownCalls s
        = [RemoveListeners, SafeClose ClientSocket code reason, SafeClose BackendSocket code reason]
          @ (if hasOnClosed cb then [OnClosed] else []))"

definition bridgeInv :: "BridgeCallbacks \<Rightarrow> BridgeState \<Rightarrow> bool" where
  "bridgeInv cb s =
     ((bridgeClosed s \<longrightarrow> \<not> listening s \<and> tornDown cb s)
      \<and> (\<not> bridgeClosed s \<longrightarrow> teardownCalls s = [] \<and> \<not> onClosedNotified s))"

text \<open>A message, a close of the backend socket, then an error and a disconnect that come late.\<close>

definition exampleEvents :: "bridge_event list" where
  "exampleEvents = [ClientMessage True False, BackendClose 1006 [], ClientError, Disconnect 4000 ''late'']"

section \<open>Identity-session manager (uuid-manager.ts)\<close>

text \<open>
  Bucket objects are shared: \<open>registerConnection\<close> and \<open>cleanup\<close> keep a reference to a bucket
  while \<open>removeConnection\<close> and the disconnect callbacks may delete it from \<open>bucketsByUuid\<close>.
  So the buckets live in a store, the list \<open>bucketObjects\<close>, a bucket is its position in that
  list, and \<open>bucketsByUuid\<close> maps an identity to a position. An object is never freed, so a new
  bucket takes the next position.

  The disconnect callback that \<open>index.ts\<close> hands to \<open>registerConnection\<close> closes the socket
  bridge of the connection; the bridge then calls \<open>releaseTrackedConnection\<close>, which calls
  \<open>unregisterConnection(extractedUuid, connectionId)\<close> on the manager unless it has done so
  before, all of it synchronously. A callback is therefore the pair it captured, identity and
  connection id, and calling it appends to \<open>disconnectLog\<close> and re-enters
  \<open>unregisterConnection\<close>. Whether the release still has to be done is the parameter \<open>live\<close>,
  asked once per call with the number of callbacks called so far. \<open>Date.now()\<close> is the
  parameter \<open>now\<close>; it does not advance during a synchronous call.

  \<open>cleanup\<close> can in this way be entered again from inside itself. The nesting is modelled
  with a depth bound: \<open>cleanupN\<close> is \<open>None\<close> when the bound is reached.
\<close>

definition UUID_REPLACED_CLOSE_CODE :: nat where
  "UUID_REPLACED_CLOSE_CODE = 1008"

definition UUID_REPLACED_CLOSE_REASON :: string where
  "UUID_REPLACED_CLOSE_REASON = ''Connection replaced by a newer session.''"

definition UUID_CLEANUP_INTERVAL_MS :: int where
  "UUID_CLEANUP_INTERVAL_MS = 60000"

definition UUID_ENTRY_STALE_MS :: int where
  "UUID_ENTRY_STALE_MS = 7 * 24 * 60 * 60 * 1000"

definition UUID_IDLE_BUCKET_TTL_MS :: int where
  "UUID_IDLE_BUCKET_TTL_MS = 10 * 60000"

definition UUID_MAX_TRACKED_BUCKETS :: nat where
  "UUID_MAX_TRACKED_BUCKETS = 10000"

definition UUID_STALE_CLOSE_CODE :: nat where
  "UUID_STALE_CLOSE_CODE = 1001"

definition UUID_STALE_CLOSE_REASON :: string where
  "UUID_STALE_CLOSE_REASON = ''Stale connection cleanup.''"

record UUIDTrackedConnection =
  connectionId :: string
  sourceIp :: string
  timestamp :: int
  disconnect :: "(string \<times> string) option"

record UUIDBucket =
  byConnectionId :: "(string \<times> UUIDTrackedConnection) list"
  byIp :: "(string \<times> string list) list"
  lastTouchedAt :: int

record UUIDConnectionManager =
  maxConnections :: int
  bucketObjects :: "UUIDBucket list"
  bucketsByUuid :: "(string \<times> nat) list"
  uuidByConnectionId :: "(string \<times> string) list"
  uuidNextCleanupAt :: int
  disconnectLog :: "(string \<times> nat \<times> string) list"

type_synonym disconnect_effect =
  "string \<times> string \<Rightarrow> UUIDConnectionManager \<Rightarrow> UUIDConnectionManager option"

definition newUUIDConnectionManager :: "int \<Rightarrow> int \<Rightarrow> UUIDConnectionManager" where
  "newUUIDConnectionManager now maxConns =
     \<lparr>maxConnections = max 0 maxConns, bucketObjects = [], bucketsByUuid = [],
      uuidByConnectionId = [], uuidNextCleanupAt = now + UUID_CLEANUP_INTERVAL_MS,
      disconnectLog = []\<rparr>"

definition uuidManager_normalizeIp :: "string \<Rightarrow> string" where
  "uuidManager_normalizeIp addr =
     (let trimmed = js_trim addr in if length trimmed > 0 then toLowerCase trimmed else ''unknown'')"

definition isEnabled :: "UUIDConnectionManager \<Rightarrow> bool" where
  "isEnabled m = (maxConnections m > 0)"

text \<open>A loop whose body may fail to return.\<close>

fun foldOption :: "('a \<Rightarrow> 's \<Rightarrow> 's option) \<Rightarrow> 'a list \<Rightarrow> 's \<Rightarrow> 's option" where
  "foldOption f [] s = Some s"
| "foldOption f (x # xs) s = (case f x s of None \<Rightarrow> None | Some s' \<Rightarrow> foldOption f xs s')"

definition bucketAt :: "UUIDConnectionManager \<Rightarrow> nat \<Rightarrow> UUIDBucket" where
  "bucketAt m bucket = bucketObjects m ! bucket"

definition setBucket :: "UUIDConnectionManager \<Rightarrow> nat \<Rightarrow> UUIDBucket \<Rightarrow> UUIDConnectionManager" where
  "setBucket m bucket b = m\<lparr>bucketObjects := (bucketObjects m)[bucket := b]\<rparr>"

text \<open>
  \<open>removeConnection\<close>; \<open>onDisconnect\<close> is what calling a callback does to the manager.
\<close>

definition removeConnection ::
  "disconnect_effect \<Rightarrow> UUIDConnectionManager \<Rightarrow> string \<Rightarrow> nat \<Rightarrow> string \<Rightarrow> bool \<Rightarrow> nat \<Rightarrow> string
     \<Rightarrow> bool \<Rightarrow> UUIDConnectionManager option" where
  "removeConnection onDisconnect m uuid bucket connId invokeDisconnect closeCode closeReason
       keepBucketWhenEmpty =
     (case map_of (byConnectionId (bucketAt m bucket)) connId of
        None \<Rightarrow> Some (m\<lparr>uuidByConnectionId := AList.delete connId (uuidByConnectionId m)\<rparr>)
      | Some connection \<Rightarrow>
          (let b = bucketAt m bucket;
               b1 = b\<lparr>byConnectionId := AList.delete connId (byConnectionId b)\<rparr>;
               b2 = (case map_of (byIp b1) (sourceIp connection) of
                       None \<Rightarrow> b1
                     | Some ipConnections \<Rightarrow>
                         (let remaining = removeAll connId ipConnections
                          in if length remaining = 0
                             then b1\<lparr>byIp := AList.delete (sourceIp connection) (byIp b1)\<rparr>
                             else b1\<lparr>byIp := AList.update (sourceIp connection) remaining (byIp b1)\<rparr>));
               m1 = (setBucket m bucket b2)
                      \<lparr>uuidByConnectionId := AList.delete connId (uuidByConnectionId m)\<rparr>
           in case (case disconnect connection of
                      Some callback \<Rightarrow>
                        if invokeDisconnect
                        then onDisconnect callback
                               (m1\<lparr>disconnectLog := disconnectLog m1 @ [(connId, closeCode, closeReason)]\<rparr>)
                        else Some m1
                    | None \<Rightarrow> Some m1) of
                None \<Rightarrow> None
              | Some m2 \<Rightarrow>
                  Some (if \<not> keepBucketWhenEmpty \<and> length (byConnectionId (bucketAt m2 bucket)) = 0
                        then m2\<lparr>bucketsByUuid := AList.delete uuid (bucketsByUuid m2)\<rparr>
                        else m2)))"

definition noDisconnect :: disconnect_effect where
  "noDisconnect callback m = Some m"

text \<open>\<open>getOrCreateBucket\<close> returns the manager and the bucket.\<close>

definition getOrCreateBucket ::
  "UUIDConnectionManager \<Rightarrow> string \<Rightarrow> int \<Rightarrow> UUIDConnectionManager \<times> nat" where
  "getOrCreateBucket m uuid now =
     (case map_of (bucketsByUuid m) uuid of
        Some existing \<Rightarrow> (setBucket m existing ((bucketAt m existing)\<lparr>lastTouchedAt := now\<rparr>), existing)
      | None \<Rightarrow>
          (m\<lparr>bucketObjects := bucketObjects m @ [\<lparr>byConnectionId = [], byIp = [], lastTouchedAt = now\<rparr>],
             bucketsByUuid := AList.update uuid (length (bucketObjects m)) (bucketsByUuid m)\<rparr>,
           length (bucketObjects m)))"

text \<open>The loop of \<open>evictIdleBucketsIfNeeded\<close> over the candidates, oldest first.\<close>

fun evictCandidates :: "int \<Rightarrow> (string \<times> int) list \<Rightarrow> UUIDConnectionManager \<Rightarrow> UUIDConnectionManager" where
  "evictCandidates now [] m = m"
| "evictCandidates now ((uuid, touched) # rest) m =
     (if length (bucketsByUuid m) \<le> UUID_MAX_TRACKED_BUCKETS then m
      else if now - touched < UUID_IDLE_BUCKET_TTL_MS then evictCandidates now rest m
      else evictCandidates now rest (m\<lparr>bucketsByUuid := AList.delete uuid (bucketsByUuid m)\<rparr>))"

definition evictIdleBucketsIfNeeded :: "UUIDConnectionManager \<Rightarrow> int \<Rightarrow> UUIDConnectionManager" where
  "evictIdleBucketsIfNeeded m now =
     (if length (bucketsByUuid m) \<le> UUID_MAX_TRACKED_BUCKETS then m
      else
        (let idleCandidates =
               map (\<lambda>(uuid, bucket). (uuid, lastTouchedAt (bucketAt m bucket)))
                 (filter (\<lambda>(uuid, bucket). \<not> length (byConnectionId (bucketAt m bucket)) > 0)
                    (bucketsByUuid m))
         in if length idleCandidates = 0 then m
            else evictCandidates now (sort_key snd idleCandidates) m))"

text \<open>
  One round of the outer loop of \<open>cleanup\<close>. The loop runs over the live map: an entry deleted
  before its turn is skipped.
\<close>

definition cleanupBucket ::
  "disconnect_effect \<Rightarrow> int \<Rightarrow> string \<times> nat \<Rightarrow> UUIDConnectionManager \<Rightarrow> UUIDConnectionManager option" where
  "cleanupBucket onDisconnect now entry m =
     (case entry of
        (uuid, bucket) \<Rightarrow>
          if map_of (bucketsByUuid m) uuid \<noteq> Some bucket then Some m
          else
            (let staleConnectionIds =
                   map fst (filter (\<lambda>(cid, connection). \<not> now - timestamp connection < UUID_ENTRY_STALE_MS)
                              (byConnectionId (bucketAt m bucket)))
             in case foldOption
                       (\<lambda>cid acc. removeConnection onDisconnect acc uuid bucket cid True
                                     UUID_STALE_CLOSE_CODE UUID_STALE_CLOSE_REASON False)
                       staleConnectionIds m of
                  None \<Rightarrow> None
                | Some m1 \<Rightarrow>
                    Some (if length (byConnectionId (bucketAt m1 bucket)) > 0 then m1
                          else if now - lastTouchedAt (bucketAt m1 bucket) \<ge> UUID_IDLE_BUCKET_TTL_MS
                          then m1\<lparr>bucketsByUuid := AList.delete uuid (bucketsByUuid m1)\<rparr>
                          else m1)))"

definition cleanupWith ::
  "disconnect_effect \<Rightarrow> UUIDConnectionManager \<Rightarrow> int \<Rightarrow> UUIDConnectionManager option" where
  "cleanupWith onDisconnect m now =
     (case foldOption (cleanupBucket onDisconnect now) (bucketsByUuid m) m of
        None \<Rightarrow> None
      | Some m1 \<Rightarrow>
          Some ((evictIdleBucketsIfNeeded m1 now)\<lparr>uuidNextCleanupAt := now + UUID_CLEANUP_INTERVAL_MS\<rparr>))"

text \<open>\<open>unregisterConnection\<close>, with the \<open>cleanup\<close> that its \<open>maybeCleanup\<close> calls as a parameter.\<close>

definition unregisterWith ::
  "(UUIDConnectionManager \<Rightarrow> int \<Rightarrow> UUIDConnectionManager option) \<Rightarrow> UUIDConnectionManager \<Rightarrow> string
     \<Rightarrow> string \<Rightarrow> int \<Rightarrow> UUIDConnectionManager option" where
  "unregisterWith cleanupFn m uuid connId now =
     (if \<not> isEnabled m then Some m
      else
        (case (if now < uuidNextCleanupAt m then Some m else cleanupFn m now) of
           None \<Rightarrow> None
         | Some m1 \<Rightarrow>
             (let normalizedUuid = normalizeUuid uuid
              in case map_of (bucketsByUuid m1) normalizedUuid of
                   None \<Rightarrow> Some (m1\<lparr>uuidByConnectionId := AList.delete connId (uuidByConnectionId m1)\<rparr>)
                 | Some bucket \<Rightarrow>
                     (case removeConnection noDisconnect m1 normalizedUuid bucket connId False
                             UUID_REPLACED_CLOSE_CODE UUID_REPLACED_CLOSE_REASON False of
                        None \<Rightarrow> None
                      | Some m2 \<Rightarrow>
                          (let m3 = setBucket m2 bucket ((bucketAt m2 bucket)\<lparr>lastTouchedAt := now\<rparr>)
                           in Some (if length (byConnectionId (bucketAt m3 bucket)) = 0
                                    then m3\<lparr>bucketsByUuid := AList.delete normalizedUuid (bucketsByUuid m3)\<rparr>
                                    else m3))))))"

text \<open>The callback of \<open>index.ts\<close>, with the \<open>cleanup\<close> that the re-entered manager calls.\<close>

definition releaseWith ::
  "(UUIDConnectionManager \<Rightarrow> int \<Rightarrow> UUIDConnectionManager option) \<Rightarrow> (nat \<Rightarrow> bool) \<Rightarrow> int
     \<Rightarrow> disconnect_effect" where
  "releaseWith cleanupFn live now callback m =
     (case callback of
        (capturedUuid, capturedConnectionId) \<Rightarrow>
          if live (length (disconnectLog m))
          then unregisterWith cleanupFn m capturedUuid capturedConnectionId now
          else Some m)"

fun cleanupN :: "nat \<Rightarrow> (nat \<Rightarrow> bool) \<Rightarrow> UUIDConnectionManager \<Rightarrow> int \<Rightarrow> UUIDConnectionManager option" where
  "cleanupN 0 live m now = None"
| "cleanupN (Suc depth) live m now = cleanupWith (releaseWith (cleanupN depth live) live now) m now"

text \<open>
  Every nested \<open>cleanup\<close> starts after one more tracked connection has been removed, so the
  number of tracked connections bounds the depth.
\<close>

definition trackedCount :: "UUIDConnectionManager \<Rightarrow> nat" where
  "trackedCount m = sum_list (map (\<lambda>b. length (byConnectionId b)) (bucketObjects m))"

definition uuidManager_cleanup :: "(nat \<Rightarrow> bool) \<Rightarrow> UUIDConnectionManager \<Rightarrow> int \<Rightarrow> UUIDConnectionManager option" where
  "uuidManager_cleanup live m now = cleanupN (Suc (trackedCount m)) live m now"

definition uuidManager_maybeCleanup ::
  "(nat \<Rightarrow> bool) \<Rightarrow> UUIDConnectionManager \<Rightarrow> int \<Rightarrow> UUIDConnectionManager option" where
  "uuidManager_maybeCleanup live m now =
     (if now < uuidNextCleanupAt m then Some m else uuidManager_cleanup live m now)"

definition uuidManager_unregisterConnection ::
  "(nat \<Rightarrow> bool) \<Rightarrow> UUIDConnectionManager \<Rightarrow> string \<Rightarrow> string \<Rightarrow> int \<Rightarrow> UUIDConnectionManager option" where
  "uuidManager_unregisterConnection live m uuid connId now =
     unregisterWith (uuidManager_cleanup live) m uuid connId now"

definition release :: "(nat \<Rightarrow> bool) \<Rightarrow> int \<Rightarrow> disconnect_effect" where
  "release live now = releaseWith (uuidManager_cleanup live) live now"

definition uuidManager_checkConnectionAllowed ::
  "(nat \<Rightarrow> bool) \<Rightarrow> UUIDConnectionManager \<Rightarrow> string \<Rightarrow> string \<Rightarrow> int
     \<Rightarrow> (bool \<times> UUIDConnectionManager) option" where
  "uuidManager_checkConnectionAllowed live m uuid addr now =
     (if \<not> isEnabled m then Some (True, m)
      else
        (case uuidManager_maybeCleanup live m now of
           None \<Rightarrow> None
         | Some m1 \<Rightarrow>
             (let normalizedUuid = normalizeUuid uuid;
                  normalizedIp = uuidManager_normalizeIp addr
              in case map_of (bucketsByUuid m1) normalizedUuid of
                   None \<Rightarrow> Some (True, m1)
                 | Some bucket \<Rightarrow>
                     (let m2 = setBucket m1 bucket ((bucketAt m1 bucket)\<lparr>lastTouchedAt := now\<rparr>)
                      in if int (length (byConnectionId (bucketAt m2 bucket))) < maxConnections m2
                         then Some (True, m2)
                         else if map_of (byIp (bucketAt m2 bucket)) normalizedIp \<noteq> None
                         then Some (True, m2)
                         else Some (False, m2)))))"

definition uuidManager_registerConnection ::
  "(nat \<Rightarrow> bool) \<Rightarrow> UUIDConnectionManager \<Rightarrow> string \<Rightarrow> string \<Rightarrow> string \<Rightarrow> (string \<times> string) option
     \<Rightarrow> int \<Rightarrow> UUIDConnectionManager option" where
  "uuidManager_registerConnection live m uuid addr connId callback now =
     (if \<not> isEnabled m then Some m
      else
        (case uuidManager_maybeCleanup live m now of
           None \<Rightarrow> None
         | Some m1 \<Rightarrow>
             (let normalizedUuid = normalizeUuid uuid;
                  normalizedIp = uuidManager_normalizeIp addr;
                  (m2, bucket) = getOrCreateBucket m1 normalizedUuid now;
                  sameIpConnections =
                    (case map_of (byIp (bucketAt m2 bucket)) normalizedIp of
                       None \<Rightarrow> []
                     | Some ids \<Rightarrow> ids)
              in case foldOption
                        (\<lambda>existingConnectionId acc.
                           removeConnection (release live now) acc normalizedUuid bucket
                             existingConnectionId True UUID_REPLACED_CLOSE_CODE
                             UUID_REPLACED_CLOSE_REASON True)
                        sameIpConnections m2 of
                   None \<Rightarrow> None
                 | Some m3 \<Rightarrow>
                     if int (length (byConnectionId (bucketAt m3 bucket))) \<ge> maxConnections m3
                        \<and> map_of (byIp (bucketAt m3 bucket)) normalizedIp = None
                     then Some m3
                     else
                       (case (case map_of (uuidByConnectionId m3) connId of
                                None \<Rightarrow> Some m3
                              | Some existingUuid \<Rightarrow>
                                  if existingUuid = [] then Some m3
                                  else
                                    (case map_of (bucketsByUuid m3) existingUuid of
                                       Some existingBucket \<Rightarrow>
                                         removeConnection noDisconnect m3 existingUuid existingBucket
                                           connId False UUID_REPLACED_CLOSE_CODE
                                           UUID_REPLACED_CLOSE_REASON False
                                     | None \<Rightarrow>
                                         Some (m3\<lparr>uuidByConnectionId :=
                                                    AList.delete connId (uuidByConnectionId m3)\<rparr>))) of
                          None \<Rightarrow> None
                        | Some m4 \<Rightarrow>
                            (let b = bucketAt m4 bucket;
                                 tracked = \<lparr>connectionId = connId, sourceIp = normalizedIp,
                                            timestamp = now, disconnect = callback\<rparr>;
                                 ipSet = (case map_of (byIp b) normalizedIp of
                                            None \<Rightarrow> []
                                          | Some ids \<Rightarrow> ids);
                                 b' = b\<lparr>byConnectionId := AList.update connId tracked (byConnectionId b),
                                        byIp := AList.update normalizedIp (setAdd connId ipSet) (byIp b),
                                        lastTouchedAt := now\<rparr>;
                                 m5 = (setBucket m4 bucket b')
                                        \<lparr>uuidByConnectionId :=
                                           AList.update connId normalizedUuid (uuidByConnectionId m4)\<rparr>
                             in Some (evictIdleBucketsIfNeeded m5 now))))))"

text \<open>
  Sequences of operations on the manager. A \<open>Register\<close> says whether a callback is handed
  over; the callback is then the one of \<open>index.ts\<close>, which captured the identity and the
  connection id of the registration.
\<close>

datatype uuid_op =
    CheckAllowed string string int
  | Register string string string bool int
  | Unregister string string int

fun applyUuidOp :: "(nat \<Rightarrow> bool) \<Rightarrow> UUIDConnectionManager \<Rightarrow> uuid_op \<Rightarrow> UUIDConnectionManager option" where
  "applyUuidOp live m (CheckAllowed uuid addr now) =
     map_option snd (uuidManager_checkConnectionAllowed live m uuid addr now)"
| "applyUuidOp live m (Register uuid addr connId withDisconnect now) =
     uuidManager_registerConnection live m uuid addr connId
       (if withDisconnect then Some (uuid, connId) else None) now"
| "applyUuidOp live m (Unregister uuid connId now) = uuidManager_unregisterConnection live m uuid connId now"

definition runUuidOps :: "(nat \<Rightarrow> bool) \<Rightarrow> UUIDConnectionManager \<Rightarrow> uuid_op list \<Rightarrow> UUIDConnectionManager option" where
  "runUuidOps live m ops = foldOption (\<lambda>op acc. applyUuidOp live acc op) ops m"

definition identityU :: string where
  "identityU = ''11111111-1111-4111-8111-111111111111''"

subsection \<open>Invariant of the identity-session manager\<close>









text \<open>
  One identity with cap 1: a session, a second one from the same address that replaces it, then a
  check and a registration from a second address.
\<close>

definition reconnectOps :: "uuid_op list" where
  "reconnectOps =
     [Register identityU ''10.0.0.1'' ''x'' True 1,
      Register identityU ''10.0.0.1'' ''y'' True 2,
      CheckAllowed identityU ''10.0.0.2'' 3,
      Register identityU ''10.0.0.2'' ''z'' True 4]"

definition reconnected :: UUIDConnectionManager where
  "reconnected = the (runUuidOps (\<lambda>_. True) (newUUIDConnectionManager 0 1) reconnectOps)"

section \<open>Theorems\<close>

subsection \<open>Retry backoff\<close>

lemma exponentialDelay_lower: "150 \<le> min (2000::rat) (150 * 2 ^ n)"
proof -
  have "(1::rat) \<le> 2 ^ n" by simp
  then have "(150::rat) \<le> 150 * 2 ^ n" by simp
  then show ?thesis by simp
qed

text \<open>
  Claim C9. For every attempt index \<open>n \<ge> 0\<close> and every random draw in \<open>[0,1)\<close>, the delay
  \<open>d\<close> returned by \<open>getRetryBackoffDelayMs\<close> satisfies \<open>b \<le> d \<le> b + 0.3 * b\<close> with
  \<open>b = min 2000 (150 * 2^n)\<close>.
\<close>

theorem backoff_delay_bounds:
  assumes "0 \<le> random" and "random < 1"
  shows "min 2000 (150 * 2 ^ n) \<le> getRetryBackoffDelayMs (of_nat n) random
       \<and> getRetryBackoffDelayMs (of_nat n) random
           \<le> min 2000 (150 * 2 ^ n) + (3 / 10) * min 2000 (150 * 2 ^ n)"
proof -
  define b :: rat where "b = min 2000 (150 * 2 ^ n)"
  define spread :: int where "spread = max 1 \<lfloor>b * (3 / 10)\<rfloor>"
  have b150: "150 \<le> b" unfolding b_def by (rule exponentialDelay_lower)
  then have "(45::rat) \<le> b * (3 / 10)" by simp
  then have "(45::int) \<le> \<lfloor>b * (3 / 10)\<rfloor>" by (simp add: le_floor_iff)
  then have spread_eq: "spread = \<lfloor>b * (3 / 10)\<rfloor>" and spread_pos: "0 < spread"
    unfolding spread_def by simp_all
  have spread_le: "of_int spread \<le> b * (3 / 10)"
    unfolding spread_eq by (rule of_int_floor_le)
  have d_eq: "getRetryBackoffDelayMs (of_nat n) random = b + of_int \<lfloor>random * of_int spread\<rfloor>"
    by (simp add: getRetryBackoffDelayMs_def Let_def BASE_RETRY_DELAY_MS_def
        MAX_RETRY_DELAY_MS_def b_def spread_def)
  have "0 \<le> random * of_int spread" using assms(1) spread_pos by simp
  then have j0: "(0::rat) \<le> of_int \<lfloor>random * of_int spread\<rfloor>" by simp
  have "random * of_int spread \<le> 1 * of_int spread"
    using assms(2) spread_pos by (intro mult_right_mono) simp_all
  then have "of_int \<lfloor>random * of_int spread\<rfloor> \<le> (of_int spread :: rat)"
    by (metis mult_1 of_int_floor_le order_trans)
  then have j1: "of_int \<lfloor>random * of_int spread\<rfloor> \<le> b * (3 / 10)"
    using spread_le by (rule order_trans)
  show ?thesis
    unfolding d_eq b_def [symmetric] using j0 j1 by (simp add: mult.commute)
qed

theorem backoff_delay_bounds_witness:
  "(0::rat) \<le> 1 / 2 \<and> (1 / 2 :: rat) < 1
   \<and> 1200 \<le> getRetryBackoffDelayMs 3 (1 / 2) \<and> getRetryBackoffDelayMs 3 (1 / 2) \<le> 1560"
  using backoff_delay_bounds [of "1 / 2" 3] by simp

subsection \<open>Backend selection\<close>

lemma pairSmallLarge_range:
  assumes "pairSmallLarge scaled probs als small large = (probs', als', small', large')"
    and "\<forall>a\<in>set als. a < n" and "\<forall>i\<in>set small. i < n" and "\<forall>i\<in>set large. i < n"
  shows "length als' = length als \<and> length probs' = length probs
       \<and> (\<forall>a\<in>set als'. a < n) \<and> (\<forall>i\<in>set small'. i < n) \<and> (\<forall>i\<in>set large'. i < n)"
  using assms
proof (induction scaled probs als small large rule: pairSmallLarge.induct)
  case (1 scaled probs als lessIdx small moreIdx large)
  define probs1 where "probs1 = probs[lessIdx := nth_or 0 scaled lessIdx]"
  define als1 where "als1 = als[lessIdx := moreIdx]"
  define updated where "updated = nth_or 0 scaled moreIdx + nth_or 0 scaled lessIdx - 1"
  define scaled1 where "scaled1 = scaled[moreIdx := updated]"
  have a: "\<forall>a\<in>set als1. a < n"
    using "1.prems"(2,4) set_update_subset_insert [of als lessIdx moreIdx]
    unfolding als1_def by auto
  have len: "length als1 = length als" "length probs1 = length probs"
    by (simp_all add: als1_def probs1_def)
  have s: "\<forall>i\<in>set small. i < n" "\<forall>i\<in>set large. i < n" "moreIdx < n"
    using "1.prems"(3,4) by simp_all
  show ?case
  proof (cases "updated < 1")
    case True
    have eq: "pairSmallLarge scaled1 probs1 als1 (moreIdx # small) large = (probs', als', small', large')"
      using "1.prems"(1) True
      by (simp add: Let_def probs1_def als1_def updated_def scaled1_def)
    have "length als' = length als1 \<and> length probs' = length probs1
       \<and> (\<forall>a\<in>set als'. a < n) \<and> (\<forall>i\<in>set small'. i < n) \<and> (\<forall>i\<in>set large'. i < n)"
      using True s a
      by (intro "1.IH"(1) [OF probs1_def als1_def updated_def scaled1_def _ eq]) simp_all
    then show ?thesis using len by simp
  next
    case False
    have eq: "pairSmallLarge scaled1 probs1 als1 small (moreIdx # large) = (probs', als', small', large')"
      using "1.prems"(1) False
      by (simp add: Let_def probs1_def als1_def updated_def scaled1_def)
    have "length als' = length als1 \<and> length probs' = length probs1
       \<and> (\<forall>a\<in>set als'. a < n) \<and> (\<forall>i\<in>set small'. i < n) \<and> (\<forall>i\<in>set large'. i < n)"
      using False s a
      by (intro "1.IH"(2) [OF probs1_def als1_def updated_def scaled1_def _ eq]) simp_all
    then show ?thesis using len by simp
  qed
next
  case "2_1"
  then show ?case by simp
next
  case "2_2"
  then show ?case by simp
qed

lemma drainStack_range:
  assumes "drainStack stack (probs, als) = (probs', als')"
    and "\<forall>a\<in>set als. a < n" and "\<forall>i\<in>set stack. i < n"
  shows "length als' = length als \<and> length probs' = length probs \<and> (\<forall>a\<in>set als'. a < n)"
  using assms
proof (induction stack arbitrary: probs als)
  case Nil
  then show ?case by simp
next
  case (Cons i stack)
  have "\<forall>a\<in>set (als[i := i]). a < n"
    using Cons.prems(2,3) set_update_subset_insert [of als i i] by auto
  with Cons.IH [of "probs[i := 1]" "als[i := i]"] Cons.prems show ?case by simp
qed

lemma buildAliasTable_many:
  assumes "1 < length cs"
  shows "buildAliasTable cs =
     (let size = length cs;
          totalWeight = sum_list (map (\<lambda>c. max DEFAULT_BACKEND_WEIGHT (weight c)) cs)
      in if totalWeight \<le> 0 then
           Some \<lparr>probabilities = replicate size 1, aliases = [0..<size], backendIndexes = map index cs\<rparr>
         else
           (let scaled = map (\<lambda>c. (of_int (max DEFAULT_BACKEND_WEIGHT (weight c)) * of_nat size)
                                      / of_int totalWeight) cs;
                small = rev (filter (\<lambda>i. nth_or 0 scaled i < 1) [0..<size]);
                large = rev (filter (\<lambda>i. \<not> nth_or 0 scaled i < 1) [0..<size]);
                (probs1, als1, small1, large1) =
                   pairSmallLarge scaled (replicate size 0) (replicate size 0) small large;
                (probs2, als2) = drainStack small1 (drainStack large1 (probs1, als1))
            in Some \<lparr>probabilities = probs2, aliases = als2, backendIndexes = map index cs\<rparr>))"
proof -
  have "length cs \<noteq> 0" "length cs \<noteq> 1" using assms by auto
  then show ?thesis
    unfolding buildAliasTable_def Let_def by simp
qed

lemma buildAliasTable_None: "buildAliasTable cs = None \<longleftrightarrow> cs = []"
proof (cases cs)
  case Nil
  then show ?thesis by (simp add: buildAliasTable_def)
next
  case (Cons c rest)
  show ?thesis
  proof (cases rest)
    case Nil
    with Cons show ?thesis by (simp add: buildAliasTable_def)
  next
    case (Cons d rest')
    with \<open>cs = c # rest\<close> have "1 < length cs" by simp
    from buildAliasTable_many [OF this] have "buildAliasTable cs \<noteq> None"
      by (simp add: Let_def split: prod.splits)
    with \<open>cs = c # rest\<close> show ?thesis by simp
  qed
qed

lemma buildAliasTable_Some:
  assumes "buildAliasTable cs = Some t"
  shows "backendIndexes t = map index cs \<and> length (aliases t) = length cs
       \<and> length (probabilities t) = length cs \<and> (\<forall>a\<in>set (aliases t). a < length cs)"
proof -
  consider "length cs = 0" | "length cs = 1" | "length cs > 1" by linarith
  then show ?thesis
  proof cases
    case 1
    with assms show ?thesis by (simp add: buildAliasTable_def)
  next
    case 2
    then obtain c where "cs = [c]" by (cases cs) auto
    with assms show ?thesis by (auto simp: buildAliasTable_def)
  next
    case 3
    define n where "n = length cs"
    define total where "total = sum_list (map (\<lambda>c. max DEFAULT_BACKEND_WEIGHT (weight c)) cs)"
    note eq = buildAliasTable_many [OF 3, unfolded Let_def, folded n_def total_def]
    show ?thesis
    proof (cases "total \<le> 0")
      case True
      with assms eq have "t = \<lparr>probabilities = replicate n 1, aliases = [0..<n], backendIndexes = map index cs\<rparr>"
        by simp
      then show ?thesis by (simp add: n_def)
    next
      case False
      define scaled :: "rat list" where "scaled = map (\<lambda>c. (of_int (max DEFAULT_BACKEND_WEIGHT (weight c)) * of_nat n)
                                            / of_int total) cs"
      define small where "small = rev (filter (\<lambda>i. nth_or 0 scaled i < 1) [0..<n])"
      define large where "large = rev (filter (\<lambda>i. \<not> nth_or 0 scaled i < 1) [0..<n])"
      obtain probs1 als1 small1 large1 where
        p: "pairSmallLarge scaled (replicate n 0) (replicate n 0) small large = (probs1, als1, small1, large1)"
        by (metis prod_cases4)
      obtain probs2 als2 where d1: "drainStack large1 (probs1, als1) = (probs2, als2)"
        by (metis surj_pair)
      obtain probs3 als3 where d2: "drainStack small1 (probs2, als2) = (probs3, als3)"
        by (metis surj_pair)
      have t: "t = \<lparr>probabilities = probs3, aliases = als3, backendIndexes = map index cs\<rparr>"
        using assms False p d1 d2
        unfolding eq scaled_def [symmetric] small_def [symmetric] large_def [symmetric]
        by simp
      have n0: "0 < n" using 3 unfolding n_def by linarith
      have i1: "\<forall>a\<in>set (replicate n (0::nat)). a < n" using n0 by simp
      have i2: "\<forall>i\<in>set small. i < n" unfolding small_def by simp
      have i3: "\<forall>i\<in>set large. i < n" unfolding large_def by simp
      have r1: "length als1 = length (replicate n (0::nat)) \<and> length probs1 = length (replicate n (0::rat))
           \<and> (\<forall>a\<in>set als1. a < n) \<and> (\<forall>i\<in>set small1. i < n) \<and> (\<forall>i\<in>set large1. i < n)"
        by (rule pairSmallLarge_range [OF p i1 i2 i3])
      have r2: "length als2 = n \<and> length probs2 = n \<and> (\<forall>a\<in>set als2. a < n)"
        using drainStack_range [OF d1, of n] r1 by simp
      have r3: "length als3 = n \<and> length probs3 = n \<and> (\<forall>a\<in>set als3. a < n)"
        using drainStack_range [OF d2, of n] r1 r2 by simp
      show ?thesis using t r3 by (simp add: n_def)
    qed
  qed
qed


lemma js_at_nat: "js_at xs (int i) = (if i < length xs then Some (xs ! i) else None)"
  by (simp add: js_at_def)

lemma js_at_Some_mem: "js_at xs i = Some x \<Longrightarrow> x \<in> set xs"
  by (auto simp: js_at_def split: if_splits)

lemma js_at_in_range: "0 \<le> i \<Longrightarrow> i < int (length xs) \<Longrightarrow> js_at xs i = Some (xs ! nat i)"
  by (simp add: js_at_def)

lemma sampleAliasTable_member:
  "fst (sampleAliasTable t rnd k) = - 1
   \<or> (\<exists>i\<in>set (backendIndexes t). fst (sampleAliasTable t rnd k) = int i)"
  by (auto simp: sampleAliasTable_def Let_def dest: js_at_Some_mem split: option.splits)

lemma floor_bucket_range:
  fixes r :: rat
  assumes "0 \<le> r" and "r < 1" and "0 < n"
  shows "0 \<le> \<lfloor>r * of_nat n\<rfloor> \<and> \<lfloor>r * of_nat n\<rfloor> < int n"
proof -
  have "0 \<le> r * of_nat n" using assms by simp
  then have lo: "0 \<le> \<lfloor>r * of_nat n\<rfloor>" by simp
  have "r * of_nat n < 1 * of_nat n" using assms by (intro mult_strict_right_mono) simp_all
  then have "r * of_nat n < of_int (int n)" by simp
  then have "\<lfloor>r * of_nat n\<rfloor> < int n" by (simp only: floor_less_iff)
  with lo show ?thesis by simp
qed

lemma sampleAliasTable_in_range:
  assumes len: "length (aliases t) = length (backendIndexes t)"
    and al: "\<forall>a\<in>set (aliases t). a < length (backendIndexes t)"
    and ne: "backendIndexes t \<noteq> []"
    and r: "0 \<le> rnd k" "rnd k < 1"
  shows "\<exists>i\<in>set (backendIndexes t). fst (sampleAliasTable t rnd k) = int i"
proof -
  define n where "n = length (backendIndexes t)"
  have n0: "0 < n" using ne by (simp add: n_def)
  show ?thesis
  proof (cases "n = 1")
    case True
    then show ?thesis
      using n0 by (simp add: sampleAliasTable_def n_def [symmetric] js_at_def)
  next
    case False
    define bucket where "bucket = \<lfloor>rnd k * of_nat n\<rfloor>"
    have b: "0 \<le> bucket" "bucket < int n"
      using floor_bucket_range [OF r n0] by (simp_all add: bucket_def)
    then have "nat bucket < length (aliases t)" by (simp add: len n_def)
    then have "aliases t ! nat bucket \<in> set (aliases t)" by simp
    then have a: "aliases t ! nat bucket < n" using al by (simp add: n_def)
    have ja: "js_at (aliases t) bucket = Some (aliases t ! nat bucket)"
      using b by (simp add: js_at_def len n_def)
    define sel where "sel = (if rnd (k + 1) < (case js_at (probabilities t) bucket of Some p \<Rightarrow> p | None \<Rightarrow> 1)
                             then bucket else int (aliases t ! nat bucket))"
    have s: "0 \<le> sel" "sel < int n" using a b by (simp_all add: sel_def)
    have "fst (sampleAliasTable t rnd k)
            = (case js_at (backendIndexes t) sel of Some i \<Rightarrow> int i | None \<Rightarrow> - 1)"
      unfolding sampleAliasTable_def Let_def n_def [symmetric] bucket_def [symmetric] ja sel_def
      using False n0 by simp
    also have "js_at (backendIndexes t) sel = Some (backendIndexes t ! nat sel)"
      using s by (intro js_at_in_range) (simp_all add: n_def)
    finally have "fst (sampleAliasTable t rnd k) = int (backendIndexes t ! nat sel)" by simp
    moreover have "backendIndexes t ! nat sel \<in> set (backendIndexes t)"
      using s by (simp add: n_def)
    ultimately show ?thesis by blast
  qed
qed

lemma indexed_lookup:
  assumes "map index bs = [0..<length bs]" and "b \<in> set bs"
  shows "js_at bs (int (index b)) = Some b"
proof -
  from assms(2) obtain j where j: "j < length bs" "bs ! j = b" by (auto simp: in_set_conv_nth)
  have "map index bs ! j = [0..<length bs] ! j" using assms(1) by simp
  then have "index (bs ! j) = j" using j(1) by simp
  then show ?thesis using j by (simp add: js_at_def)
qed

lemma table_index_lookup:
  assumes "map index bs = [0..<length bs]" and "i \<in> set (map index (filter P bs))"
  shows "\<exists>c. js_at bs (int i) = Some c \<and> c \<in> set bs \<and> P c"
proof -
  from assms(2) obtain c where "c \<in> set bs" "P c" "i = index c" by auto
  then show ?thesis using indexed_lookup [OF assms(1)] by auto
qed

lemma sampleAttempts_Some:
  assumes "sampleAttempts n bs t excluded rnd k = (Some c, k')"
  shows "key c \<notin> excluded \<and> (\<exists>i\<in>set (backendIndexes t). js_at bs (int i) = Some c)"
  using assms
proof (induction n arbitrary: k)
  case 0
  then show ?case by simp
next
  case (Suc n)
  obtain sel k1 where s: "sampleAliasTable t rnd k = (sel, k1)" by (metis surj_pair)
  from sampleAliasTable_member [of t rnd k] s
  have m: "sel = - 1 \<or> (\<exists>i\<in>set (backendIndexes t). sel = int i)" by simp
  show ?case
  proof (cases "sel < 0")
    case True
    with Suc.prems s have "sampleAttempts n bs t excluded rnd k1 = (Some c, k')" by simp
    then show ?thesis by (rule Suc.IH)
  next
    case False
    with m obtain i where i: "i \<in> set (backendIndexes t)" "sel = int i" by auto
    show ?thesis
    proof (cases "js_at bs sel")
      case None
      with Suc.prems s False have "sampleAttempts n bs t excluded rnd k1 = (Some c, k')" by simp
      then show ?thesis by (rule Suc.IH)
    next
      case (Some candidate)
      show ?thesis
      proof (cases "key candidate \<in> excluded")
        case True
        with Suc.prems s False Some have "sampleAttempts n bs t excluded rnd k1 = (Some c, k')" by simp
        then show ?thesis by (rule Suc.IH)
      next
        case ex: False
        with Suc.prems s False Some have "candidate = c" by simp
        with Some ex i show ?thesis by auto
      qed
    qed
  qed
qed

lemma scanTable_Some:
  "scanTable bs excluded is = Some c
   \<Longrightarrow> key c \<notin> excluded \<and> (\<exists>i\<in>set is. js_at bs (int i) = Some c)"
  by (induction "is") (auto split: option.splits if_splits)

lemma scanTable_None:
  "scanTable bs excluded is = None \<Longrightarrow> i \<in> set is \<Longrightarrow> js_at bs (int i) = Some c
   \<Longrightarrow> key c \<in> excluded"
  by (induction "is") (auto split: option.splits if_splits)



lemma pickFromAlias_result:
  assumes wf: "map index bs = [0..<length bs]"
    and rnd: "\<forall>i. 0 \<le> rnd i \<and> rnd i < 1"
  shows "case fst (pickFromAlias bs (buildAliasTable (filter P bs)) excluded rnd k) of
           Some c \<Rightarrow> c \<in> set bs \<and> P c \<and> key c \<notin> excluded
         | None \<Rightarrow> \<forall>c\<in>set bs. P c \<longrightarrow> key c \<in> excluded"
proof (cases "filter P bs = []")
  case True
  then have "buildAliasTable (filter P bs) = None" by (simp add: buildAliasTable_None)
  then have "fst (pickFromAlias bs (buildAliasTable (filter P bs)) excluded rnd k) = None"
    by (simp add: pickFromAlias_def)
  moreover have "\<forall>c\<in>set bs. \<not> P c" using True by (simp add: filter_empty_conv)
  ultimately show ?thesis by simp
next
  case False
  then obtain t where t: "buildAliasTable (filter P bs) = Some t"
    using buildAliasTable_None [of "filter P bs"] by (cases "buildAliasTable (filter P bs)") auto
  note props = buildAliasTable_Some [OF t]
  have bi: "backendIndexes t = map index (filter P bs)" using props by simp
  have ne: "backendIndexes t \<noteq> []" using False bi by simp
  have look: "\<exists>c. js_at bs (int i) = Some c \<and> c \<in> set bs \<and> P c" if "i \<in> set (backendIndexes t)" for i
    using table_index_lookup [OF wf, of i P] that bi by simp
  show ?thesis
  proof (cases "excluded = {}")
    case True
    have "\<exists>i\<in>set (backendIndexes t). fst (sampleAliasTable t rnd k) = int i"
      using props ne rnd by (intro sampleAliasTable_in_range) simp_all
    then obtain i where i: "i \<in> set (backendIndexes t)" "fst (sampleAliasTable t rnd k) = int i"
      by blast
    from look [OF i(1)] obtain c where c: "js_at bs (int i) = Some c" "c \<in> set bs" "P c" by blast
    have "fst (pickFromAlias bs (Some t) excluded rnd k) = Some c"
      using True ne i(2) c(1) by (simp add: pickFromAlias_def split_beta)
    then show ?thesis using c True t by simp
  next
    case nonempty: False
    define attempts where "attempts = max ALIAS_MIN_SAMPLE_ATTEMPTS
                              (length (backendIndexes t) * ALIAS_SAMPLE_ATTEMPTS_MULTIPLIER)"
    obtain r k' where r: "sampleAttempts attempts bs t excluded rnd k = (r, k')"
      by (metis surj_pair)
    show ?thesis
    proof (cases r)
      case (Some c)
      from sampleAttempts_Some [OF r [unfolded Some]]
      obtain i where i: "key c \<notin> excluded" "i \<in> set (backendIndexes t)" "js_at bs (int i) = Some c"
        by blast
      from look [OF i(2)] i(3) have "c \<in> set bs \<and> P c" by auto
      moreover have "fst (pickFromAlias bs (Some t) excluded rnd k) = Some c"
        using nonempty ne r Some by (simp add: pickFromAlias_def attempts_def [symmetric])
      ultimately show ?thesis using i(1) t by simp
    next
      case None
      have res: "fst (pickFromAlias bs (Some t) excluded rnd k) = scanTable bs excluded (backendIndexes t)"
        using nonempty ne r None by (simp add: pickFromAlias_def attempts_def [symmetric])
      show ?thesis
      proof (cases "scanTable bs excluded (backendIndexes t)")
        case (Some c)
        from scanTable_Some [OF Some]
        obtain i where i: "key c \<notin> excluded" "i \<in> set (backendIndexes t)" "js_at bs (int i) = Some c"
          by blast
        from look [OF i(2)] i(3) have "c \<in> set bs \<and> P c" by auto
        then show ?thesis using res Some i(1) t by simp
      next
        case scanNone: None
        have "key c \<in> excluded" if "c \<in> set bs" "P c" for c
        proof -
          have "index c \<in> set (backendIndexes t)" using that bi by auto
          moreover have "js_at bs (int (index c)) = Some c" using indexed_lookup [OF wf that(1)] .
          ultimately show ?thesis using scanTable_None [OF scanNone] by blast
        qed
        then show ?thesis using res scanNone t by simp
      qed
    qed
  qed
qed

lemma pickByOrder_Some:
  assumes "pickByOrder bs excluded healthyOnly = Some c"
  shows "c \<in> set bs \<and> (healthyOnly \<longrightarrow> healthy c) \<and> key c \<notin> excluded"
  using assms by (auto simp: pickByOrder_def find_Some_iff)

lemma pickByOrder_None:
  assumes "pickByOrder bs excluded healthyOnly = None" and "c \<in> set bs"
    and "healthyOnly \<longrightarrow> healthy c"
  shows "key c \<in> excluded"
  using assms by (auto simp: pickByOrder_def find_None_iff)

lemma pickStickyHealthy_Some:
  assumes "pickStickyHealthy m excluded = Some c"
  shows "c \<in> set (backends m) \<and> healthy c \<and> key c \<notin> excluded"
  using assms
  by (auto simp: pickStickyHealthy_def split: option.splits if_splits
      dest: pickByOrder_Some js_at_Some_mem)

lemma pickStickyHealthy_None:
  assumes "pickStickyHealthy m excluded = None" and "c \<in> set (backends m)" and "healthy c"
  shows "key c \<in> excluded"
proof -
  have "pickByOrder (backends m) excluded True = None"
    using assms(1) by (auto simp: pickStickyHealthy_def split: option.splits if_splits)
  then show ?thesis using assms(2,3) by (auto dest: pickByOrder_None)
qed


lemma maybeRun_fields [simp]:
  "backends (maybeRunScheduledHealthChecks m now) = backends m"
  "stickySession (maybeRunScheduledHealthChecks m now) = stickySession m"
  "healthyAliasTable (maybeRunScheduledHealthChecks m now) = healthyAliasTable m"
  "allAliasTable (maybeRunScheduledHealthChecks m now) = allAliasTable m"
  "healthyIndexHeap (maybeRunScheduledHealthChecks m now) = healthyIndexHeap m"
  by (simp_all add: maybeRunScheduledHealthChecks_def)

lemma pickHealthy_Some:
  assumes "backendsIndexed m" and "selectionStructuresCurrent m"
    and "\<forall>i. 0 \<le> rnd i \<and> rnd i < 1"
    and "fst (pickHealthy m excluded rnd k) = Some c"
  shows "c \<in> set (backends m) \<and> healthy c \<and> key c \<notin> excluded"
proof (cases "stickySession m")
  case True
  with assms(4) show ?thesis by (auto simp: pickHealthy_def dest: pickStickyHealthy_Some)
next
  case False
  from pickFromAlias_result [OF assms(1) [unfolded backendsIndexed_def] assms(3),
      where P = healthy and excluded = excluded and k = k]
  show ?thesis
    using assms(2,4) False by (simp add: pickHealthy_def selectionStructuresCurrent_def)
qed

lemma pickHealthy_None:
  assumes "backendsIndexed m" and "selectionStructuresCurrent m"
    and "\<forall>i. 0 \<le> rnd i \<and> rnd i < 1"
    and "fst (pickHealthy m excluded rnd k) = None"
    and "c \<in> set (backends m)" and "healthy c"
  shows "key c \<in> excluded"
proof (cases "stickySession m")
  case True
  with assms(4) have "pickStickyHealthy m excluded = None" by (simp add: pickHealthy_def)
  then show ?thesis using assms(5,6) by (rule pickStickyHealthy_None)
next
  case False
  from pickFromAlias_result [OF assms(1) [unfolded backendsIndexed_def] assms(3),
      where P = healthy and excluded = excluded and k = k]
  show ?thesis
    using assms(2,4,5,6) False by (simp add: pickHealthy_def selectionStructuresCurrent_def)
qed

lemma pickAny_Some:
  assumes "backendsIndexed m" and "selectionStructuresCurrent m"
    and "\<forall>i. 0 \<le> rnd i \<and> rnd i < 1"
    and "fst (pickAny m excluded rnd k) = Some c"
  shows "c \<in> set (backends m) \<and> key c \<notin> excluded"
proof (cases "stickySession m")
  case True
  with assms(4) show ?thesis by (auto simp: pickAny_def dest: pickByOrder_Some)
next
  case False
  from pickFromAlias_result [OF assms(1) [unfolded backendsIndexed_def] assms(3),
      where P = "\<lambda>_. True" and excluded = excluded and k = k]
  show ?thesis
    using assms(2,4) False by (simp add: pickAny_def selectionStructuresCurrent_def)
qed

lemma pickAny_None:
  assumes "backendsIndexed m" and "selectionStructuresCurrent m"
    and "\<forall>i. 0 \<le> rnd i \<and> rnd i < 1"
    and "fst (pickAny m excluded rnd k) = None"
    and "c \<in> set (backends m)"
  shows "key c \<in> excluded"
proof (cases "stickySession m")
  case True
  with assms(4) have "pickByOrder (backends m) excluded False = None" by (simp add: pickAny_def)
  then show ?thesis using assms(5) by (auto dest: pickByOrder_None)
next
  case False
  from pickFromAlias_result [OF assms(1) [unfolded backendsIndexed_def] assms(3),
      where P = "\<lambda>_. True" and excluded = excluded and k = k]
  show ?thesis
    using assms(2,4,5) False by (simp add: pickAny_def selectionStructuresCurrent_def)
qed

text \<open>
  What holds of \<open>getBackend\<close> while the alias tables are current. It returns a backend: one
  of the pool, or the synthetic default when the pool is empty. For a manager whose indexes
  are positions and whose alias tables are current, and random draws in \<open>[0,1)\<close>: when some
  healthy backend is not excluded, the backend returned is healthy and not excluded, whatever
  the draws; when every backend is excluded, it is the first configured backend.
\<close>

theorem getBackend_selection:
  assumes idx: "backendsIndexed m" and cur: "selectionStructuresCurrent m"
    and rnd: "\<forall>i. 0 \<le> rnd i \<and> rnd i < 1"
  shows "(fst (getBackend m parseUrl excludedUrls now rnd k) \<in> set (backends m)
          \<or> backends m = [] \<and> fst (getBackend m parseUrl excludedUrls now rnd k) = createFallbackBackend now)
       \<and> ((\<exists>c\<in>set (backends m). healthy c \<and> key c \<notin> excludedKeys parseUrl excludedUrls)
            \<longrightarrow> healthy (fst (getBackend m parseUrl excludedUrls now rnd k))
              \<and> key (fst (getBackend m parseUrl excludedUrls now rnd k)) \<notin> excludedKeys parseUrl excludedUrls)
       \<and> ((\<forall>c\<in>set (backends m). key c \<in> excludedKeys parseUrl excludedUrls)
            \<longrightarrow> fst (getBackend m parseUrl excludedUrls now rnd k)
                  = (case backends m of b # _ \<Rightarrow> b | [] \<Rightarrow> createFallbackBackend now))"
proof -
  define m1 where "m1 = maybeRunScheduledHealthChecks m now"
  define ex where "ex = excludedKeys parseUrl excludedUrls"
  have idx1: "backendsIndexed m1" using idx by (simp add: backendsIndexed_def m1_def)
  have cur1: "selectionStructuresCurrent m1"
    using cur by (simp add: selectionStructuresCurrent_def m1_def)
  have bs: "backends m1 = backends m" by (simp add: m1_def)
  obtain h k1 where h: "pickHealthy m1 ex rnd k = (h, k1)" by (metis surj_pair)
  obtain a k2 where a: "pickAny m1 ex rnd k1 = (a, k2)" by (metis surj_pair)
  have g: "fst (getBackend m parseUrl excludedUrls now rnd k)
         = (case h of Some c \<Rightarrow> c
            | None \<Rightarrow> (case a of Some c \<Rightarrow> c
                       | None \<Rightarrow> (case backends m of b # _ \<Rightarrow> b | [] \<Rightarrow> createFallbackBackend now)))"
    using h a
    by (simp add: getBackend_def Let_def m1_def [symmetric] ex_def [symmetric] bs
        split: option.splits)
  show ?thesis
  proof (cases h)
    case (Some c)
    from pickHealthy_Some [OF idx1 cur1 rnd, of ex k c] h Some
    have "c \<in> set (backends m) \<and> healthy c \<and> key c \<notin> ex" by (simp add: bs)
    then show ?thesis unfolding g ex_def [symmetric] using Some by auto
  next
    case None
    have noHealthy: "key c \<in> ex" if "c \<in> set (backends m)" "healthy c" for c
      using pickHealthy_None [OF idx1 cur1 rnd, of ex k c] h None that by (simp add: bs)
    show ?thesis
    proof (cases a)
      case (Some c)
      from pickAny_Some [OF idx1 cur1 rnd, of ex k1 c] a Some
      have "c \<in> set (backends m) \<and> key c \<notin> ex" by (simp add: bs)
      then show ?thesis unfolding g ex_def [symmetric] using None Some noHealthy by auto
    next
      case aNone: None
      have allEx: "key c \<in> ex" if "c \<in> set (backends m)" for c
        using pickAny_None [OF idx1 cur1 rnd, of ex k1 c] a aNone that by (simp add: bs)
      show ?thesis unfolding g ex_def [symmetric] using None aNone allEx
        by (cases "backends m") auto
    qed
  qed
qed


theorem getBackend_selection_witness:
  "backendsIndexed examplePool \<and> selectionStructuresCurrent examplePool
   \<and> (\<forall>i. (0::rat) \<le> (\<lambda>_. 0) i \<and> (\<lambda>_. 0::rat) i < 1)
   \<and> (\<exists>c\<in>set (backends examplePool). healthy c \<and> key c \<notin> excludedKeys Some [''http://a/''])
   \<and> healthy (fst (getBackend examplePool Some [''http://a/''] 5 (\<lambda>_. 0) 0))
   \<and> key (fst (getBackend examplePool Some [''http://a/''] 5 (\<lambda>_. 0) 0))
         \<notin> excludedKeys Some [''http://a/'']"
proof -
  have i: "backendsIndexed examplePool" by code_simp
  have c: "selectionStructuresCurrent examplePool" by code_simp
  have r: "\<forall>i. (0::rat) \<le> (\<lambda>_. 0) i \<and> (\<lambda>_. 0::rat) i < 1" by simp
  have e: "\<exists>c\<in>set (backends examplePool). healthy c \<and> key c \<notin> excludedKeys Some [''http://a/'']"
    by code_simp
  from getBackend_selection [OF i c r, of Some "[''http://a/'']" 5 0] e i c r
  show ?thesis by blast
qed

text \<open>
  Claim C4 fails on the code while a probe cycle is under way. The probe of \<open>a\<close> has failed
  and flipped its health bit; the probe of \<open>b\<close> is still pending, so \<open>runHealthChecks\<close> has not
  rebuilt the healthy table yet. \<open>b\<close> is healthy and nothing is excluded, and \<open>getBackend\<close>
  with draws \<open>0, 0\<close> returns the unhealthy \<open>a\<close>. \<open>markFailed\<close> and \<open>markHealthy\<close> rebuild the
  table at once, and the sticky path reads \<open>candidate.healthy\<close> again; this path does neither.
\<close>

theorem getBackend_stale_table:
  "(\<exists>c\<in>set (backends (fst (probeResultArrives examplePool 5 0 False))).
       healthy c \<and> key c \<notin> excludedKeys Some [])
   \<and> \<not> healthy (fst (getBackend (fst (probeResultArrives examplePool 5 0 False)) Some [] 6 (\<lambda>_. 0) 0))"
  by code_simp

subsection \<open>The selection structures stay current\<close>

text \<open>
  The alias tables depend on the indexes and weights of the backends only, so they are
  current after the constructor, after \<open>markFailed\<close> and \<open>markHealthy\<close>, and after a whole
  probe cycle.
\<close>

lemma buildAliasTable_cong:
  assumes i: "map index bs = map index bs'" and w: "map weight bs = map weight bs'"
  shows "buildAliasTable bs = buildAliasTable bs'"
proof -
  have len: "length bs = length bs'" using i by (rule map_eq_imp_length_eq)
  have wf: "map (\<lambda>c. F (weight c)) bs = map (\<lambda>c. F (weight c)) bs'" for F :: "int \<Rightarrow> 'b"
  proof -
    have "map (\<lambda>c. F (weight c)) bs = map F (map weight bs)" by simp
    also have "\<dots> = map F (map weight bs')" using w by simp
    also have "\<dots> = map (\<lambda>c. F (weight c)) bs'" by simp
    finally show ?thesis .
  qed
  have s1: "sum_list (map (\<lambda>c. max DEFAULT_BACKEND_WEIGHT (weight c)) bs)
            = sum_list (map (\<lambda>c. max DEFAULT_BACKEND_WEIGHT (weight c)) bs')"
    using wf [of "\<lambda>w. max DEFAULT_BACKEND_WEIGHT w"] by simp
  have s2: "(map (\<lambda>c. (of_int (max DEFAULT_BACKEND_WEIGHT (weight c)) * of_nat n) / of_int t) bs
              :: rat list)
            = map (\<lambda>c. (of_int (max DEFAULT_BACKEND_WEIGHT (weight c)) * of_nat n) / of_int t) bs'"
    for n :: nat and t :: int
    using wf [of "\<lambda>w. ((of_int (max DEFAULT_BACKEND_WEIGHT w) * of_nat n) / of_int t) :: rat"] .
  have hd: "(case bs of only # _ \<Rightarrow> Some \<lparr>probabilities = [1], aliases = [0], backendIndexes = [index only]\<rparr>
             | [] \<Rightarrow> None)
          = (case bs' of only # _ \<Rightarrow> Some \<lparr>probabilities = [1], aliases = [0], backendIndexes = [index only]\<rparr>
             | [] \<Rightarrow> None)"
    using i by (cases bs; cases bs') auto
  show ?thesis
    unfolding buildAliasTable_def Let_def len s1 s2 i hd by (rule refl)
qed

lemma map_filter_update:
  assumes "i < length xs" and "P y = P (xs ! i)" and "f y = f (xs ! i)"
  shows "map f (filter P (xs[i := y])) = map f (filter P xs)"
  using assms
proof (induction xs arbitrary: i)
  case Nil
  then show ?case by simp
next
  case (Cons x xs)
  then show ?case by (cases i) auto
qed

lemma map_update_same:
  assumes "i < length xs" and "f y = f (xs ! i)"
  shows "map f (xs[i := y]) = map f xs"
  using assms by (simp add: map_update list_update_same_conv)

lemma markFailedBackend_fields:
  "index (fst (markFailedBackend now b)) = index b"
  "weight (fst (markFailedBackend now b)) = weight b"
  "\<not> snd (markFailedBackend now b) \<Longrightarrow> healthy (fst (markFailedBackend now b)) = healthy b"
  by (auto simp: markFailedBackend_def Let_def split: if_splits)

lemma markHealthyBackend_fields:
  "index (fst (markHealthyBackend now b)) = index b"
  "weight (fst (markHealthyBackend now b)) = weight b"
  "\<not> snd (markHealthyBackend now b) \<Longrightarrow> healthy (fst (markHealthyBackend now b)) = healthy b"
  by (auto simp: markHealthyBackend_def Let_def split: if_splits)

lemma applyHealthProbeResult_fields:
  "index (fst (applyHealthProbeResult now b r)) = index b"
  "weight (fst (applyHealthProbeResult now b r)) = weight b"
  "\<not> snd (applyHealthProbeResult now b r) \<Longrightarrow> healthy (fst (applyHealthProbeResult now b r)) = healthy b"
  by (auto simp: applyHealthProbeResult_def Let_def split: if_splits)

text \<open>Replacing one backend by a copy with the same index and weight.\<close>

lemma replace_allTableCurrent:
  assumes "allTableCurrent m" and "i < length (backends m)"
    and "index b' = index (backends m ! i)" and "weight b' = weight (backends m ! i)"
    and "allAliasTable m' = allAliasTable m" and "backends m' = (backends m)[i := b']"
  shows "allTableCurrent m'"
proof -
  have ix: "map index (backends m') = map index (backends m)"
    using assms(2,3,6) by (simp add: map_update_same)
  have wx: "map weight (backends m') = map weight (backends m)"
    using assms(2,4,6) by (simp add: map_update_same)
  have len: "length (backends m') = length (backends m)" using assms(6) by simp
  show ?thesis
    using assms(1,5) buildAliasTable_cong [OF ix wx]
    by (simp add: allTableCurrent_def backendsIndexed_def ix len)
qed

lemma replace_healthyTable:
  assumes "healthyAliasTable m = buildAliasTable (filter healthy (backends m))"
    and "i < length (backends m)"
    and "index b' = index (backends m ! i)" and "weight b' = weight (backends m ! i)"
    and "healthy b' = healthy (backends m ! i)"
    and "healthyAliasTable m' = healthyAliasTable m" and "backends m' = (backends m)[i := b']"
  shows "healthyAliasTable m' = buildAliasTable (filter healthy (backends m'))"
proof -
  have ix: "map index (filter healthy (backends m')) = map index (filter healthy (backends m))"
    unfolding assms(7) using assms(2,5,3) by (rule map_filter_update)
  have wx: "map weight (filter healthy (backends m')) = map weight (filter healthy (backends m))"
    unfolding assms(7) using assms(2,5,4) by (rule map_filter_update)
  show ?thesis using assms(1,6) buildAliasTable_cong [OF ix wx] by simp
qed

lemma rebuildHealthy_current:
  assumes "allTableCurrent m"
  shows "backendsIndexed (rebuildHealthySelectionStructures m)
       \<and> selectionStructuresCurrent (rebuildHealthySelectionStructures m)"
  using assms
  by (simp add: allTableCurrent_def rebuildHealthySelectionStructures_def Let_def
        backendsIndexed_def selectionStructuresCurrent_def)

lemma current_allTable:
  "backendsIndexed m \<Longrightarrow> selectionStructuresCurrent m \<Longrightarrow> allTableCurrent m"
  by (simp add: allTableCurrent_def selectionStructuresCurrent_def)

lemma firstPosition_less: "firstPosition P xs = Some i \<Longrightarrow> i < length xs"
  by (induction xs arbitrary: i) (auto split: if_splits)

lemma newBackendManager_current:
  "backendsIndexed (newBackendManager now parsedConfigurations intervalMs stickyConfigured)
   \<and> selectionStructuresCurrent (newBackendManager now parsedConfigurations intervalMs stickyConfigured)"
proof -
  have e: "map index (map (\<lambda>(i, b). b\<lparr>index := i\<rparr>) (List.enumerate 0 xs)) = [0..<length xs]"
    for xs :: "BackendRuntimeState list"
  proof -
    have "map index (map (\<lambda>(i, b). b\<lparr>index := i\<rparr>) (List.enumerate 0 xs))
          = map fst (List.enumerate 0 xs)"
      by (simp add: case_prod_unfold comp_def)
    then show ?thesis by simp
  qed
  have l: "length (initializeBackends now parsedConfigurations)
           = length (if collectBackends now parsedConfigurations [] = []
                     then [createFallbackBackend now]
                     else collectBackends now parsedConfigurations [])"
    by (simp add: initializeBackends_def Let_def)
  have ix: "map index (initializeBackends now parsedConfigurations)
            = [0..<length (initializeBackends now parsedConfigurations)]"
    unfolding l unfolding initializeBackends_def Let_def e
    by (simp add: createFallbackBackend_def)
  show ?thesis
    using ix
    by (simp add: newBackendManager_def Let_def rebuildSelectionStructures_def
          rebuildHealthySelectionStructures_def backendsIndexed_def selectionStructuresCurrent_def)
qed

lemma markFailed_current:
  assumes "backendsIndexed m" and "selectionStructuresCurrent m"
  shows "backendsIndexed (markFailed m parseUrl now u)
       \<and> selectionStructuresCurrent (markFailed m parseUrl now u)"
proof (cases "lookupBackend m parseUrl u")
  case None
  then show ?thesis using assms by (simp add: markFailed_def)
next
  case (Some i)
  then have i: "i < length (backends m)"
    by (auto simp: lookupBackend_def split: option.splits dest: firstPosition_less)
  define b' where "b' = fst (markFailedBackend now (backends m ! i))"
  define flipped where "flipped = snd (markFailedBackend now (backends m ! i))"
  define m1 where "m1 = m\<lparr>backends := (backends m)[i := b']\<rparr>"
  have eq: "markFailed m parseUrl now u = (if flipped then rebuildHealthySelectionStructures m1 else m1)"
    using Some by (simp add: markFailed_def case_prod_unfold Let_def b'_def flipped_def m1_def)
  have a1: "allTableCurrent m1"
    using current_allTable [OF assms] i
    by (rule replace_allTableCurrent)
       (simp_all add: b'_def m1_def markFailedBackend_fields)
  show ?thesis
  proof (cases flipped)
    case True
    then show ?thesis using rebuildHealthy_current [OF a1] by (simp add: eq)
  next
    case False
    have h: "healthyAliasTable m = buildAliasTable (filter healthy (backends m))"
      using assms(2) by (simp add: selectionStructuresCurrent_def)
    have "healthyAliasTable m1 = buildAliasTable (filter healthy (backends m1))"
      using h i
      by (rule replace_healthyTable)
         (use False in \<open>simp_all add: b'_def m1_def flipped_def markFailedBackend_fields\<close>)
    then show ?thesis using a1 False
      by (simp add: eq allTableCurrent_def selectionStructuresCurrent_def)
  qed
qed

lemma markHealthy_current:
  assumes "backendsIndexed m" and "selectionStructuresCurrent m"
  shows "backendsIndexed (markHealthy m parseUrl now u)
       \<and> selectionStructuresCurrent (markHealthy m parseUrl now u)"
proof (cases "lookupBackend m parseUrl u")
  case None
  then show ?thesis using assms by (simp add: markHealthy_def)
next
  case (Some i)
  then have i: "i < length (backends m)"
    by (auto simp: lookupBackend_def split: option.splits dest: firstPosition_less)
  define b' where "b' = fst (markHealthyBackend now (backends m ! i))"
  define flipped where "flipped = snd (markHealthyBackend now (backends m ! i))"
  define m1 where "m1 = m\<lparr>backends := (backends m)[i := b']\<rparr>"
  have eq: "markHealthy m parseUrl now u = (if flipped then rebuildHealthySelectionStructures m1 else m1)"
    using Some by (simp add: markHealthy_def case_prod_unfold Let_def b'_def flipped_def m1_def)
  have a1: "allTableCurrent m1"
    using current_allTable [OF assms] i
    by (rule replace_allTableCurrent)
       (simp_all add: b'_def m1_def markHealthyBackend_fields)
  show ?thesis
  proof (cases flipped)
    case True
    then show ?thesis using rebuildHealthy_current [OF a1] by (simp add: eq)
  next
    case False
    have h: "healthyAliasTable m = buildAliasTable (filter healthy (backends m))"
      using assms(2) by (simp add: selectionStructuresCurrent_def)
    have "healthyAliasTable m1 = buildAliasTable (filter healthy (backends m1))"
      using h i
      by (rule replace_healthyTable)
         (use False in \<open>simp_all add: b'_def m1_def flipped_def markHealthyBackend_fields\<close>)
    then show ?thesis using a1 False
      by (simp add: eq allTableCurrent_def selectionStructuresCurrent_def)
  qed
qed

lemma probeResultArrives_current:
  assumes "allTableCurrent m"
  shows "allTableCurrent (fst (probeResultArrives m now i r))
       \<and> (\<not> snd (probeResultArrives m now i r)
            \<and> healthyAliasTable m = buildAliasTable (filter healthy (backends m))
          \<longrightarrow> healthyAliasTable (fst (probeResultArrives m now i r))
                = buildAliasTable (filter healthy (backends (fst (probeResultArrives m now i r)))))"
proof (cases "i < length (backends m)")
  case False
  then show ?thesis using assms by (simp add: probeResultArrives_def)
next
  case True
  define b' where "b' = fst (applyHealthProbeResult now (backends m ! i) r)"
  define changed where "changed = snd (applyHealthProbeResult now (backends m ! i) r)"
  define m1 where "m1 = m\<lparr>backends := (backends m)[i := b']\<rparr>"
  have eq: "probeResultArrives m now i r = (m1, changed)"
    using True by (simp add: probeResultArrives_def case_prod_unfold Let_def b'_def changed_def m1_def)
  have a1: "allTableCurrent m1"
    using assms True
    by (rule replace_allTableCurrent)
       (simp_all add: b'_def m1_def applyHealthProbeResult_fields)
  have h1: "healthyAliasTable m1 = buildAliasTable (filter healthy (backends m1))"
    if "\<not> changed" and h: "healthyAliasTable m = buildAliasTable (filter healthy (backends m))"
    using h True
    by (rule replace_healthyTable)
       (use that(1) in \<open>simp_all add: b'_def m1_def changed_def applyHealthProbeResult_fields\<close>)
  show ?thesis using a1 h1 by (simp add: eq)
qed

lemma probeResultsArrive_current:
  assumes "allTableCurrent m"
  shows "allTableCurrent (fst (probeResultsArrive m results))
       \<and> (\<not> list_ex (\<lambda>changed. changed) (snd (probeResultsArrive m results))
            \<and> healthyAliasTable m = buildAliasTable (filter healthy (backends m))
          \<longrightarrow> healthyAliasTable (fst (probeResultsArrive m results))
                = buildAliasTable (filter healthy (backends (fst (probeResultsArrive m results)))))"
  using assms
proof (induction results arbitrary: m)
  case Nil
  then show ?case by simp
next
  case (Cons p results)
  obtain i now r where p: "p = (i, now, r)" by (cases p)
  define m1 where "m1 = fst (probeResultArrives m now i r)"
  define changed where "changed = snd (probeResultArrives m now i r)"
  have eq: "probeResultsArrive m (p # results)
            = (fst (probeResultsArrive m1 results), changed # snd (probeResultsArrive m1 results))"
    by (simp add: p case_prod_unfold m1_def changed_def Let_def)
  note s = probeResultArrives_current [OF Cons.prems, of now i r, folded m1_def changed_def]
  from s have a1: "allTableCurrent m1" by simp
  note ih = Cons.IH [OF a1]
  show ?case unfolding eq using s ih by simp
qed

lemma completeHealthChecks_current:
  assumes "backendsIndexed m" and "selectionStructuresCurrent m"
  shows "backendsIndexed (completeHealthChecks m results)
       \<and> selectionStructuresCurrent (completeHealthChecks m results)"
proof -
  define m1 where "m1 = fst (probeResultsArrive m results)"
  define changes where "changes = snd (probeResultsArrive m results)"
  have eq: "completeHealthChecks m results = finishHealthChecks m1 changes"
    by (simp add: completeHealthChecks_def case_prod_unfold m1_def changes_def Let_def)
  note s = probeResultsArrive_current [OF current_allTable [OF assms], of results,
      folded m1_def changes_def]
  from s have a1: "allTableCurrent m1" by simp
  have h: "healthyAliasTable m = buildAliasTable (filter healthy (backends m))"
    using assms(2) by (simp add: selectionStructuresCurrent_def)
  show ?thesis
  proof (cases "list_ex (\<lambda>changed. changed) changes")
    case True
    then show ?thesis using rebuildHealthy_current [OF a1]
      by (simp add: eq finishHealthChecks_def backendsIndexed_def selectionStructuresCurrent_def)
  next
    case False
    then show ?thesis using s h a1
      by (simp add: eq finishHealthChecks_def backendsIndexed_def selectionStructuresCurrent_def
            allTableCurrent_def)
  qed
qed

subsection \<open>Health hysteresis\<close>

text \<open>
  Claim C1, amended. For a backend whose health bit is false: a failure report (request
  or probe) leaves it unhealthy with the success counter at 0; a successful probe adds one
  to the counter and flips the backend healthy exactly when the counter has reached 2;
  \<open>markHealthy\<close> after a request sets the counter to 2 and flips it healthy at once.
\<close>

theorem recovery_hysteresis:
  assumes "\<not> healthy b"
  shows "(healthy (fst (applyHealthProbeResult now b True)) \<longleftrightarrow> 2 \<le> consecutiveSuccesses b + 1)
       \<and> consecutiveSuccesses (fst (applyHealthProbeResult now b True)) = consecutiveSuccesses b + 1
       \<and> \<not> healthy (fst (applyHealthProbeResult now b False))
       \<and> consecutiveSuccesses (fst (applyHealthProbeResult now b False)) = 0
       \<and> \<not> healthy (fst (markFailedBackend now b))
       \<and> consecutiveSuccesses (fst (markFailedBackend now b)) = 0
       \<and> healthy (fst (markHealthyBackend now b))
       \<and> consecutiveSuccesses (fst (markHealthyBackend now b)) = 2"
  using assms
  by (simp add: applyHealthProbeResult_def markHealthyBackend_def markFailedBackend_def Let_def
      RECOVERY_HYSTERESIS_COUNT_def)

theorem recovery_hysteresis_witness:
  "\<not> healthy (fst (markFailedBackend 1 (createFallbackBackend 0)))
   \<and> \<not> healthy (fst (applyHealthProbeResult 2 (fst (markFailedBackend 1 (createFallbackBackend 0))) True))
   \<and> healthy (fst (applyHealthProbeResult 3
        (fst (applyHealthProbeResult 2 (fst (markFailedBackend 1 (createFallbackBackend 0))) True)) True))
   \<and> healthy (fst (markHealthyBackend 2 (fst (markFailedBackend 1 (createFallbackBackend 0)))))"
proof -
  define b where "b = fst (markFailedBackend 1 (createFallbackBackend 0))"
  have h: "\<not> healthy b" and c: "consecutiveSuccesses b = 0"
    by (simp_all add: b_def markFailedBackend_def createFallbackBackend_def Let_def
        FAILURE_HYSTERESIS_COUNT_def)
  from recovery_hysteresis [OF h, of 2] c
  have h2: "\<not> healthy (fst (applyHealthProbeResult 2 b True))"
    and c2: "consecutiveSuccesses (fst (applyHealthProbeResult 2 b True)) = 1"
    and m: "healthy (fst (markHealthyBackend 2 b))"
    by simp_all
  from recovery_hysteresis [OF h2, of 3] c2
  have "healthy (fst (applyHealthProbeResult 3 (fst (applyHealthProbeResult 2 b True)) True))"
    by simp
  with h h2 m show ?thesis unfolding b_def by simp
qed

text \<open>
  Claim C1 as stated fails for \<open>markHealthy\<close>: backend \<open>a\<close> is marked failed (unhealthy,
  success counter 0) and one \<open>markHealthy\<close> makes it healthy again.
\<close>

theorem markHealthy_flips_at_once:
  "map healthy (backends (markFailed examplePool Some 1 (UrlObject ''http://a/''))) = [False, True]
   \<and> map consecutiveSuccesses (backends (markFailed examplePool Some 1 (UrlObject ''http://a/''))) = [0, 0]
   \<and> map healthy (backends (markHealthy (markFailed examplePool Some 1 (UrlObject ''http://a/''))
                               Some 2 (UrlObject ''http://a/''))) = [True, True]"
  by code_simp

subsection \<open>Transport resolution\<close>

lemma stringIncludes_append: "stringIncludes t sub \<Longrightarrow> stringIncludes (s @ t) sub"
proof (induction s)
  case Nil
  then show ?case by simp
next
  case (Cons c s)
  then show ?case by simp
qed

subsection \<open>Identity extraction\<close>

lemma toLowerChar_idem: "toLowerChar (toLowerChar c) = toLowerChar c"
  by (simp add: toLowerChar_def Let_def)

lemma toLowerCase_idem: "toLowerCase (toLowerCase s) = toLowerCase s"
  by (simp add: toLowerCase_def toLowerChar_idem)

text \<open>
  Claim C2, amended. For a GET upgrade request to \<open>/xhttp/foo?transport=ws&ed=0\<close>, from any
  origin, with any headers and any configured default: the handler selected is \<open>ws\<close>; the
  path forwarded to the upstream is \<open>/xhttp/foo\<close>, unchanged, because the prefix \<open>/xhttp\<close>
  is not the transport selected; the forwarded search text is \<open>?ed=0\<close>, without the
  \<open>transport\<close> parameter, and no \<open>x-transport-type\<close> header is forwarded. The prefix is
  stripped when it names the selected transport: \<open>/ws/foo?transport=ws&ed=0\<close> is forwarded
  as \<open>/foo\<close>.
\<close>

theorem scenario5_routing:
  "fst (routeRequest env (scenario5\<lparr>origin := og, headers := hs\<rparr>)) = Ws
   \<and> pathname (snd (routeRequest env (scenario5\<lparr>origin := og, headers := hs\<rparr>))) = ''/xhttp/foo''
   \<and> search (snd (routeRequest env (scenario5\<lparr>origin := og, headers := hs\<rparr>))) = ''?ed=0''
   \<and> searchParamsGet (snd (routeRequest env (scenario5\<lparr>origin := og, headers := hs\<rparr>))) ''transport'' = None
   \<and> headersGet (snd (routeRequest env (scenario5\<lparr>origin := og, headers := hs\<rparr>))) ''x-transport-type'' = None
   \<and> pathname (snd (routeRequest env (scenario5\<lparr>origin := og, headers := hs, pathname := ''/ws/foo''\<rparr>))) = ''/foo''"
proof -
  define r where "r = scenario5\<lparr>origin := og, headers := hs\<rparr>"
  define r2 where "r2 = scenario5\<lparr>origin := og, headers := hs, pathname := ''/ws/foo''\<rparr>"
  have f1: "parsePathTransport ''/xhttp/foo'' = (Some Xhttp, ''/foo'')" by code_simp
  have f1': "parsePathTransport ''/ws/foo'' = (Some Ws, ''/foo'')" by code_simp
  have f2: "parseSearch ''?transport=ws&ed=0'' = [(''transport'', ''ws''), (''ed'', ''0'')]"
    by code_simp
  have f3: "asTransportType (toLowerCase ''ws'') = Some Ws" by code_simp
  have f4: "serializeSearch (AList.delete ''transport'' [(''transport'', ''ws''), (''ed'', ''0'')]) = ''?ed=0''"
    by code_simp
  have f5: "stringIncludes (og @ p @ ''?transport=ws&ed=0'') ''transport=''" for p
  proof -
    have "stringIncludes ''?transport=ws&ed=0'' ''transport=''" by code_simp
    then have "stringIncludes ((og @ p) @ ''?transport=ws&ed=0'') ''transport=''"
      by (rule stringIncludes_append)
    then show ?thesis by simp
  qed
  have f6: "parseSearch ''?ed=0'' = [(''ed'', ''0'')]" by code_simp
  have f7: "serializeSearch [(''ed'', ''0'')] = ''?ed=0''" by code_simp
  have rt: "resolveTransport r' env pt = Ws" if "search r' = ''?transport=ws&ed=0''" for r' pt
    using that by (simp add: resolveTransport_def searchParamsGet_def f2 f3)
  have st: "stripRoutingSelectors r' =
      buildForwardRequest r' (pathname r') ''?ed=0''
        (if headersGet r' ''x-transport-type'' \<noteq> None
         then AList.delete ''x-transport-type'' (headers r') else headers r')"
    if "search r' = ''?transport=ws&ed=0''" "origin r' = og" for r'
    using that f5 [of "pathname r'"]
    by (simp add: stripRoutingSelectors_def requestUrl_def Let_def f2 f4 f7)
  have hd: "headersGet (buildForwardRequest r' p s
        (if headersGet r' ''x-transport-type'' \<noteq> None
         then AList.delete ''x-transport-type'' (headers r') else headers r')) ''x-transport-type'' = None"
    for r' p s
    by (auto simp: headersGet_def buildForwardRequest_def AList.delete_conv')
  have s1: "snd (routeRequest env r) =
      buildForwardRequest r ''/xhttp/foo'' ''?ed=0''
        (if headersGet r ''x-transport-type'' \<noteq> None
         then AList.delete ''x-transport-type'' (headers r) else headers r)"
    using rt [of r "Some Xhttp"] st [of r]
    by (simp add: routeRequest_def f1 toForwardedRequest_def r_def scenario5_def)
  have t1: "fst (routeRequest env r) = Ws"
    using rt [of r "Some Xhttp"] by (simp add: routeRequest_def f1 r_def scenario5_def)
  have s2: "pathname (snd (routeRequest env r2)) = ''/foo''"
  proof -
    have "resolveTransport r2 env (Some Ws) = Ws"
      by (rule rt) (simp add: r2_def scenario5_def)
    moreover have "search (rewritePath r2 ''/foo'') = ''?transport=ws&ed=0''"
      "origin (rewritePath r2 ''/foo'') = og" "pathname (rewritePath r2 ''/foo'') = ''/foo''"
      by (simp_all add: rewritePath_def buildForwardRequest_def r2_def scenario5_def)
    ultimately show ?thesis
      using st [of "rewritePath r2 ''/foo''"]
      by (simp add: routeRequest_def f1' toForwardedRequest_def r2_def scenario5_def
          buildForwardRequest_def)
  qed
  have p1: "pathname (snd (routeRequest env r)) = ''/xhttp/foo''"
    and q1: "search (snd (routeRequest env r)) = ''?ed=0''"
    and sp1: "searchParamsGet (snd (routeRequest env r)) ''transport'' = None"
    by (simp_all add: s1 buildForwardRequest_def searchParamsGet_def f6)
  have h1: "headersGet (snd (routeRequest env r)) ''x-transport-type'' = None"
    unfolding s1 by (rule hd)
  show ?thesis
    using t1 p1 q1 sp1 h1 s2 unfolding r_def r2_def by simp
qed

text \<open>
  Claim C2 as stated fails: the path forwarded for scenario 5 is \<open>/xhttp/foo\<close>, not \<open>/foo\<close>.
\<close>

theorem scenario5_prefix_kept:
  "fst (routeRequest None scenario5) = Ws
   \<and> pathname (snd (routeRequest None scenario5)) = ''/xhttp/foo''
   \<and> pathname (snd (routeRequest None scenario5)) \<noteq> ''/foo''"
  by code_simp

text \<open>
  Claim C8, amended. The identity is taken from the \<open>id\<close> query parameter when that holds
  a valid identity, whatever the path; only otherwise from the path: the first segment when
  valid, else the second segment when the first is \<open>sub\<close> in any case. Every identity
  returned is lower-case.
\<close>

theorem identity_precedence:
  "(\<forall>v. searchParamsGet r ''id'' = Some v \<and> v \<noteq> [] \<and> isValidUuid v
        \<longrightarrow> extractUuidFromRequest dec r = Some (normalizeUuid v))
   \<and> ((\<forall>v. searchParamsGet r ''id'' = Some v \<longrightarrow> v = [] \<or> \<not> isValidUuid v)
        \<longrightarrow> extractUuidFromRequest dec r = extractUuidFromPath dec r)
   \<and> (\<forall>f rest. pathSegments dec (pathname r) = f # rest \<and> f \<noteq> [] \<and> isValidUuid f
        \<longrightarrow> extractUuidFromPath dec r = Some (normalizeUuid f))
   \<and> (\<forall>f sn rest. pathSegments dec (pathname r) = f # sn # rest \<and> \<not> isValidUuid f
          \<and> toLowerCase f = ''sub'' \<and> sn \<noteq> [] \<and> isValidUuid sn
        \<longrightarrow> extractUuidFromPath dec r = Some (normalizeUuid sn))
   \<and> (\<forall>u. extractUuidFromRequest dec r = Some u \<longrightarrow> toLowerCase u = u)"
proof (intro conjI allI impI)
  fix v assume "searchParamsGet r ''id'' = Some v \<and> v \<noteq> [] \<and> isValidUuid v"
  then show "extractUuidFromRequest dec r = Some (normalizeUuid v)"
    by (simp add: extractUuidFromRequest_def)
next
  assume "\<forall>v. searchParamsGet r ''id'' = Some v \<longrightarrow> v = [] \<or> \<not> isValidUuid v"
  then show "extractUuidFromRequest dec r = extractUuidFromPath dec r"
    by (auto simp: extractUuidFromRequest_def split: option.splits)
next
  fix f rest assume "pathSegments dec (pathname r) = f # rest \<and> f \<noteq> [] \<and> isValidUuid f"
  then show "extractUuidFromPath dec r = Some (normalizeUuid f)"
    by (simp add: extractUuidFromPath_def js_at_def)
next
  fix f sn rest
  assume "pathSegments dec (pathname r) = f # sn # rest \<and> \<not> isValidUuid f
          \<and> toLowerCase f = ''sub'' \<and> sn \<noteq> [] \<and> isValidUuid sn"
  then show "extractUuidFromPath dec r = Some (normalizeUuid sn)"
    by (simp add: extractUuidFromPath_def js_at_def)
next
  fix u assume "extractUuidFromRequest dec r = Some u"
  then have "\<exists>w. u = normalizeUuid w"
    by (auto simp: extractUuidFromRequest_def extractUuidFromPath_def Let_def
        split: option.splits if_splits)
  then show "toLowerCase u = u" by (auto simp: normalizeUuid_def toLowerCase_idem)
qed

theorem identity_precedence_witness:
  "searchParamsGet twoIdentities ''id'' = Some ''BBBBBBBB-BBBB-4BBB-8BBB-BBBBBBBBBBBB''
   \<and> isValidUuid ''BBBBBBBB-BBBB-4BBB-8BBB-BBBBBBBBBBBB''
   \<and> extractUuidFromRequest Some twoIdentities = Some ''bbbbbbbb-bbbb-4bbb-8bbb-bbbbbbbbbbbb''"
proof -
  have a: "searchParamsGet twoIdentities ''id'' = Some ''BBBBBBBB-BBBB-4BBB-8BBB-BBBBBBBBBBBB''"
    by code_simp
  have b: "isValidUuid ''BBBBBBBB-BBBB-4BBB-8BBB-BBBBBBBBBBBB''" by code_simp
  have c: "normalizeUuid ''BBBBBBBB-BBBB-4BBB-8BBB-BBBBBBBBBBBB'' = ''bbbbbbbb-bbbb-4bbb-8bbb-bbbbbbbbbbbb''"
    by code_simp
  from identity_precedence [of twoIdentities Some] a b c show ?thesis by simp
qed

text \<open>
  Claim C8 as stated fails: the first path segment and the \<open>id\<close> parameter hold different
  valid identities, and the one extracted is the parameter's.
\<close>

theorem identity_query_wins:
  "isValidUuid ''aaaaaaaa-aaaa-4aaa-8aaa-aaaaaaaaaaaa''
   \<and> pathSegments Some (pathname twoIdentities) = [''aaaaaaaa-aaaa-4aaa-8aaa-aaaaaaaaaaaa'']
   \<and> searchParamsGet twoIdentities ''id'' = Some ''BBBBBBBB-BBBB-4BBB-8BBB-BBBBBBBBBBBB''
   \<and> isValidUuid ''BBBBBBBB-BBBB-4BBB-8BBB-BBBBBBBBBBBB''
   \<and> extractUuidFromRequest Some twoIdentities = Some ''bbbbbbbb-bbbb-4bbb-8bbb-bbbbbbbbbbbb''
   \<and> extractUuidFromRequest Some twoIdentities \<noteq> Some ''aaaaaaaa-aaaa-4aaa-8aaa-aaaaaaaaaaaa''"
  by code_simp


subsection \<open>IP rate limiter\<close>

lemma refillTokens_config:
  "bucketCapacity l' = bucketCapacity l \<Longrightarrow> refillTokensPerMs l' = refillTokensPerMs l
   \<Longrightarrow> refillTokens l' = refillTokens l"
  by (simp add: refillTokens_def fun_eq_iff)

lemma maybeCleanup_config [simp]:
  "maxConnPerIp (rateLimiter_maybeCleanup l now) = maxConnPerIp l"
  "bucketCapacity (rateLimiter_maybeCleanup l now) = bucketCapacity l"
  "refillTokensPerMs (rateLimiter_maybeCleanup l now) = refillTokensPerMs l"
  by (simp_all add: rateLimiter_maybeCleanup_def cleanupOldAttempts_def)

lemma maybeCleanup_next: "now < nextCleanupAt (rateLimiter_maybeCleanup l now)"
  by (simp add: rateLimiter_maybeCleanup_def cleanupOldAttempts_def CLEANUP_INTERVAL_MS_def)

lemma maybeCleanup_settled: "now < nextCleanupAt l \<Longrightarrow> rateLimiter_maybeCleanup l now = l"
  by (simp add: rateLimiter_maybeCleanup_def)

lemma getOrCreateState_config [simp]:
  "maxConnPerIp (snd (getOrCreateState l ip now)) = maxConnPerIp l"
  "bucketCapacity (snd (getOrCreateState l ip now)) = bucketCapacity l"
  "refillTokensPerMs (snd (getOrCreateState l ip now)) = refillTokensPerMs l"
  "nextCleanupAt (snd (getOrCreateState l ip now)) = nextCleanupAt l"
  by (simp_all add: getOrCreateState_def Let_def split: option.splits)

lemma getOrCreateState_lookup:
  "map_of (stateByIp (snd (getOrCreateState l ip now))) ip = Some (fst (getOrCreateState l ip now))"
  by (simp add: getOrCreateState_def Let_def AList.update_conv' split: option.splits)

lemma getOrCreateState_existing:
  "map_of (stateByIp l) ip = Some st \<Longrightarrow> getOrCreateState l ip now = (st, l)"
  by (simp add: getOrCreateState_def)

lemma putState_config [simp]:
  "maxConnPerIp (putState l ip st) = maxConnPerIp l"
  "bucketCapacity (putState l ip st) = bucketCapacity l"
  "refillTokensPerMs (putState l ip st) = refillTokensPerMs l"
  "nextCleanupAt (putState l ip st) = nextCleanupAt l"
  by (simp_all add: putState_def)

lemma putState_lookup [simp]: "map_of (stateByIp (putState l ip st)) ip = Some st"
  by (simp add: putState_def AList.update_conv')

lemma putState_same: "map_of (stateByIp l) ip = Some st \<Longrightarrow> putState l ip st = l"
  by (simp add: putState_def AList.update_triv)

lemma putState_twice [simp]: "putState (putState l ip st) ip st' = putState l ip st'"
  by (simp add: putState_def AList.update_last)

lemma refillTokens_fields [simp]:
  "activeConnectionIds (refillTokens l st now) = activeConnectionIds st"
  "lastSeenAt (refillTokens l st now) = lastSeenAt st"
  "now \<le> lastRefillAt (refillTokens l st now)"
  by (simp_all add: refillTokens_def Let_def)

lemma refillTokens_settled: "now \<le> lastRefillAt st \<Longrightarrow> refillTokens l st now = st"
  by (simp add: refillTokens_def)

lemma check_unfold:
  "rateLimiter_checkConnectionAllowed l ip now =
     ((if int (length (activeConnectionIds (refilled l ip now))) \<ge> maxConnPerIp l then False
       else tokens (refilled l ip now) + TOKEN_EPSILON \<ge> 1),
      putState (prepared l ip now) (rateLimiter_normalizeIp ip) ((refilled l ip now)\<lparr>lastSeenAt := now\<rparr>))"
  by (simp add: rateLimiter_checkConnectionAllowed_def refilled_def prepared_def Let_def split_beta)

lemma register_unfold:
  "rateLimiter_registerConnection l ip c now =
     putState (prepared l ip now) (rateLimiter_normalizeIp ip)
       (if c \<in> set (activeConnectionIds (refilled l ip now))
        then (refilled l ip now)\<lparr>lastSeenAt := now\<rparr>
        else (refilled l ip now)
               \<lparr>activeConnectionIds := setAdd c (activeConnectionIds (refilled l ip now)),
                tokens := max 0 (tokens (refilled l ip now) - 1),
                lastSeenAt := now\<rparr>)"
proof -
  have "max 0 (t - 1) = 0" if "\<not> t + TOKEN_EPSILON \<ge> 1" for t :: rat
    using that by (simp add: TOKEN_EPSILON_def)
  then show ?thesis
    by (simp add: rateLimiter_registerConnection_def refilled_def prepared_def Let_def split_beta)
qed

lemma settled_after_check:
  "now < nextCleanupAt (snd (rateLimiter_checkConnectionAllowed l ip now))"
  "map_of (stateByIp (snd (rateLimiter_checkConnectionAllowed l ip now))) (rateLimiter_normalizeIp ip)
     = Some ((refilled l ip now)\<lparr>lastSeenAt := now\<rparr>)"
  "now \<le> lastRefillAt (refilled l ip now)"
  by (simp_all add: check_unfold prepared_def maybeCleanup_next refilled_def split_beta Let_def)

lemma refilled_settled:
  assumes "now < nextCleanupAt l1"
    and "map_of (stateByIp l1) (rateLimiter_normalizeIp ip) = Some st"
    and "now \<le> lastRefillAt st"
  shows "refilled l1 ip now = st" and "prepared l1 ip now = l1"
  using assms
  by (simp_all add: refilled_def prepared_def maybeCleanup_settled getOrCreateState_existing
      refillTokens_settled)


text \<open>
  Claim C7. At a fixed timestamp, a second \<open>checkConnectionAllowed\<close> returns the same
  boolean as the first and leaves the limiter, hence the token count, as the first left it.
  With \<open>t\<close> the token count after the check: \<open>registerConnection\<close> at that timestamp
  (before or after the check) leaves \<open>t\<close> for a connection id that is already active and
  \<open>max 0 (t - 1)\<close> for one that is not, and makes the id active; \<open>unregisterConnection\<close>
  leaves \<open>t\<close>. A check never lowers the count of a well-formed limiter.
\<close>

theorem check_idempotent_register_consumes:
  "rateLimiter_checkConnectionAllowed (snd (rateLimiter_checkConnectionAllowed l ip now)) ip now
     = rateLimiter_checkConnectionAllowed l ip now
   \<and> (\<exists>t. tokensOf (snd (rateLimiter_checkConnectionAllowed l ip now)) ip = Some t
        \<and> tokensOf (snd (rateLimiter_checkConnectionAllowed
                          (snd (rateLimiter_checkConnectionAllowed l ip now)) ip now)) ip = Some t
        \<and> tokensOf (rateLimiter_registerConnection l ip c now) ip
            = Some (if c \<in> set (activeOf (snd (rateLimiter_checkConnectionAllowed l ip now)) ip)
                    then t else max 0 (t - 1))
        \<and> tokensOf (rateLimiter_registerConnection (snd (rateLimiter_checkConnectionAllowed l ip now)) ip c now) ip
            = Some (if c \<in> set (activeOf (snd (rateLimiter_checkConnectionAllowed l ip now)) ip)
                    then t else max 0 (t - 1))
        \<and> tokensOf (rateLimiter_unregisterConnection (snd (rateLimiter_checkConnectionAllowed l ip now)) ip c now) ip
            = Some t
        \<and> (\<forall>t0. tokensOf l ip = Some t0 \<and> t0 \<le> bucketCapacity l \<and> 0 \<le> refillTokensPerMs l
                \<and> distinct (map fst (stateByIp l))
              \<longrightarrow> t0 \<le> t))
   \<and> c \<in> set (activeOf (rateLimiter_registerConnection l ip c now) ip)"
proof -
  define nip where "nip = rateLimiter_normalizeIp ip"
  define st where "st = (refilled l ip now)\<lparr>lastSeenAt := now\<rparr>"
  define l1 where "l1 = snd (rateLimiter_checkConnectionAllowed l ip now)"
  note s = settled_after_check [where l = l and ip = ip and now = now, folded l1_def st_def nip_def]
  have s3: "now \<le> lastRefillAt st" using s(3) by (simp add: st_def)
  have r1: "refilled l1 ip now = st" and p1: "prepared l1 ip now = l1"
    using refilled_settled [OF s(1) s(2) [unfolded nip_def] s3] by simp_all
  have l1_eq: "l1 = putState (prepared l ip now) nip st"
    by (simp add: l1_def check_unfold st_def nip_def)
  have cfg: "maxConnPerIp l1 = maxConnPerIp l"
    by (simp add: l1_eq prepared_def)
  have same: "putState l1 nip st = l1" using s(2) by (rule putState_same)
  have st_seen: "st\<lparr>lastSeenAt := now\<rparr> = st" by (simp add: st_def)
  have idem: "rateLimiter_checkConnectionAllowed l1 ip now = rateLimiter_checkConnectionAllowed l ip now"
  proof -
    have "rateLimiter_checkConnectionAllowed l1 ip now
            = ((if int (length (activeConnectionIds st)) \<ge> maxConnPerIp l then False
                else tokens st + TOKEN_EPSILON \<ge> 1), l1)"
      by (simp add: check_unfold [of l1] r1 p1 cfg st_seen same nip_def [symmetric])
    also have "\<dots> = rateLimiter_checkConnectionAllowed l ip now"
      by (simp add: check_unfold [of l] l1_eq st_def nip_def)
    finally show ?thesis .
  qed
  have t1: "tokensOf l1 ip = Some (tokens st)"
    using s(2) by (simp add: tokensOf_def nip_def)
  have a1: "activeOf l1 ip = activeConnectionIds (refilled l ip now)"
    using s(2) by (simp add: activeOf_def nip_def st_def)
  have reg: "tokensOf (rateLimiter_registerConnection l ip c now) ip
       = Some (if c \<in> set (activeOf l1 ip) then tokens st else max 0 (tokens st - 1))"
    by (simp add: register_unfold tokensOf_def a1 st_def)
  have reg1: "tokensOf (rateLimiter_registerConnection l1 ip c now) ip
       = Some (if c \<in> set (activeOf l1 ip) then tokens st else max 0 (tokens st - 1))"
    by (simp add: register_unfold [of l1] r1 p1 tokensOf_def a1) (simp add: st_def)
  have act: "c \<in> set (activeOf (rateLimiter_registerConnection l ip c now) ip)"
    by (simp add: register_unfold activeOf_def setAdd_def)
  have unreg: "tokensOf (rateLimiter_unregisterConnection l1 ip c now) ip = Some (tokens st)"
  proof -
    define st' where "st' = (if c \<in> set (activeConnectionIds st)
                            then st\<lparr>activeConnectionIds := removeAll c (activeConnectionIds st),
                                     lastSeenAt := now\<rparr>
                            else st)"
    have seen: "lastSeenAt st' = now" and tok: "tokens st' = tokens st"
      by (simp_all add: st'_def st_def)
    have notIdle: "\<not> isIdle (putState l1 nip st') st' now"
      by (simp add: isIdle_def seen IDLE_STATE_TTL_MS_def ONE_MINUTE_MS_def)
    have "rateLimiter_unregisterConnection l1 ip c now = putState l1 nip st'"
      using s(1,2) notIdle
      by (simp add: rateLimiter_unregisterConnection_def maybeCleanup_settled Let_def
          nip_def [symmetric] st'_def [symmetric] deleteIfIdle_def)
    then show ?thesis by (simp add: tokensOf_def nip_def [symmetric] tok)
  qed
  have mono: "t0 \<le> tokens st"
    if "tokensOf l ip = Some t0" "t0 \<le> bucketCapacity l" "0 \<le> refillTokensPerMs l"
      "distinct (map fst (stateByIp l))" for t0
  proof -
    from that(1) obtain s0 where s0: "map_of (stateByIp l) nip = Some s0" "tokens s0 = t0"
      by (auto simp: tokensOf_def nip_def)
    have up: "tokens x \<le> tokens (refillTokens l' x now)"
      if "tokens x \<le> bucketCapacity l'" "0 \<le> refillTokensPerMs l'" for l' x
      using that by (simp add: refillTokens_def Let_def)
    have cap: "tokens (refillTokens l' x now) \<le> bucketCapacity l'"
      if "tokens x \<le> bucketCapacity l'" for l' x
      using that by (simp add: refillTokens_def Let_def)
    define lc where "lc = rateLimiter_maybeCleanup l now"
    have lc_cfg: "bucketCapacity lc = bucketCapacity l" "refillTokensPerMs lc = refillTokensPerMs l"
      by (simp_all add: lc_def)
    have step1: "case map_of (stateByIp lc) nip of
                   None \<Rightarrow> True
                 | Some s1 \<Rightarrow> t0 \<le> tokens s1 \<and> tokens s1 \<le> bucketCapacity l"
    proof (cases "now < nextCleanupAt l")
      case True
      then show ?thesis using s0 that(2) by (simp add: lc_def rateLimiter_maybeCleanup_def)
    next
      case False
      define f where "f = (\<lambda>(ip' :: string, state :: IpTokenBucketState).
               let refilled = refillTokens l state now
               in if isIdle l refilled now then None else Some (ip', refilled))"
      have lc_eq: "stateByIp lc = List.map_filter f (stateByIp l)"
        using False by (simp add: lc_def rateLimiter_maybeCleanup_def cleanupOldAttempts_def f_def)
      have keys: "fst ` set (List.map_filter f al) \<subseteq> fst ` set al" for al
        by (induction al)
           (auto simp: List.map_filter_simps f_def Let_def split: option.splits if_splits)
      have gen: "case map_of (List.map_filter f al) nip of
                   None \<Rightarrow> True
                 | Some s1 \<Rightarrow> (\<exists>s. map_of al nip = Some s \<and> s1 = refillTokens l s now)"
        if "distinct (map fst al)" for al
        using that
      proof (induction al)
        case Nil
        then show ?case by (simp add: List.map_filter_simps)
      next
        case (Cons a al)
        obtain k v where a: "a = (k, v)" by (cases a)
        have absent: "map_of (List.map_filter f al) nip = None" if "k = nip"
        proof -
          have "nip \<notin> fst ` set al" using Cons.prems that by (auto simp: a)
          then have "nip \<notin> fst ` set (List.map_filter f al)" using keys [of al] by blast
          then show ?thesis by (simp add: map_of_eq_None_iff)
        qed
        show ?case
          using Cons.IH Cons.prems absent
          by (auto simp: a List.map_filter_simps f_def Let_def split: option.splits if_splits)
      qed
      show ?thesis
        using gen [OF that(4)] s0 up [of s0 l] cap [of s0 l] that(2,3)
        by (auto simp: lc_eq split: option.splits)
    qed
    define s1 where "s1 = fst (getOrCreateState lc nip now)"
    define l2 where "l2 = snd (getOrCreateState lc nip now)"
    have s1_b: "t0 \<le> tokens s1 \<and> tokens s1 \<le> bucketCapacity l"
      using step1 that(2) lc_cfg
      by (auto simp: s1_def getOrCreateState_def Let_def split: option.splits)
    have l2_cfg: "bucketCapacity l2 = bucketCapacity l" "refillTokensPerMs l2 = refillTokensPerMs l"
      by (simp_all add: l2_def lc_cfg)
    have "refilled l ip now = refillTokens l2 s1 now"
      by (simp add: refilled_def Let_def split_beta s1_def l2_def lc_def nip_def)
    moreover have "tokens s1 \<le> tokens (refillTokens l2 s1 now)"
      using up [of s1 l2] s1_b that(3) l2_cfg by simp
    ultimately show ?thesis using s1_b by (simp add: st_def)
  qed
  have t1': "tokensOf (snd (rateLimiter_checkConnectionAllowed l1 ip now)) ip = Some (tokens st)"
    using t1 by (simp add: idem l1_def [symmetric])
  show ?thesis
    using idem t1 t1' reg reg1 act unreg mono unfolding l1_def by blast
qed

theorem check_idempotent_register_consumes_witness:
  "tokensOf exampleLimiter ''192.0.2.1'' = Some 4
   \<and> 4 \<le> bucketCapacity exampleLimiter \<and> 0 \<le> refillTokensPerMs exampleLimiter
   \<and> distinct (map fst (stateByIp exampleLimiter))
   \<and> (\<exists>t. tokensOf (snd (rateLimiter_checkConnectionAllowed exampleLimiter ''192.0.2.1'' 13000))
             ''192.0.2.1'' = Some t \<and> 4 \<le> t)
   \<and> tokensOf (rateLimiter_registerConnection exampleLimiter ''192.0.2.1'' ''conn-2'' 1000) ''192.0.2.1''
       = Some 3"
proof -
  have h1: "tokensOf exampleLimiter ''192.0.2.1'' = Some 4" by code_simp
  have h2: "4 \<le> bucketCapacity exampleLimiter" by code_simp
  have h3: "0 \<le> refillTokensPerMs exampleLimiter" by code_simp
  have h4: "distinct (map fst (stateByIp exampleLimiter))" by code_simp
  from check_idempotent_register_consumes [of exampleLimiter "''192.0.2.1''" 13000 "''conn-2''"]
  obtain t where t: "tokensOf (snd (rateLimiter_checkConnectionAllowed exampleLimiter ''192.0.2.1'' 13000))
                       ''192.0.2.1'' = Some t"
    and mono: "\<forall>t0. tokensOf exampleLimiter ''192.0.2.1'' = Some t0 \<and> t0 \<le> bucketCapacity exampleLimiter
                  \<and> 0 \<le> refillTokensPerMs exampleLimiter \<and> distinct (map fst (stateByIp exampleLimiter))
                \<longrightarrow> t0 \<le> t"
    by blast
  from mono h1 h2 h3 h4 have "4 \<le> t" by blast
  moreover have "tokensOf (rateLimiter_registerConnection exampleLimiter ''192.0.2.1'' ''conn-2'' 1000)
                   ''192.0.2.1'' = Some 3"
    by code_simp
  ultimately show ?thesis using h1 h2 h3 h4 t by blast
qed

subsection \<open>Subscription cache\<close>

lemma entrySizes_delete:
  assumes "distinct (map fst ns)" and "map_of ns k = Some e"
  shows "sum_list (entrySizes (AList.delete k ns)) = sum_list (entrySizes ns) - sizeBytes e"
  using assms
proof (induction ns)
  case Nil
  then show ?case by simp
next
  case (Cons p ns)
  obtain k' e' where p: "p = (k', e')" by (cases p)
  show ?case
  proof (cases "k' = k")
    case True
    then have "k \<notin> fst ` set ns" using Cons.prems(1) by (simp add: p)
    then have "AList.delete k ns = ns"
      by (simp add: AList.delete_eq filter_id_conv) (auto simp: image_iff)
    then show ?thesis using True Cons.prems(2) by (simp add: p entrySizes_def AList.delete_eq)
  next
    case False
    then show ?thesis using Cons by (simp add: p entrySizes_def AList.delete_eq)
  qed
qed

lemma entrySizes_delete_pos:
  "list_all (\<lambda>n. 0 \<le> n) (entrySizes ns) \<Longrightarrow> list_all (\<lambda>n. 0 \<le> n) (entrySizes (AList.delete k ns))"
  by (induction ns) (auto simp: entrySizes_def AList.delete_eq)

lemma entrySizes_lookup_pos:
  "list_all (\<lambda>n. 0 \<le> n) (entrySizes ns) \<Longrightarrow> map_of ns k = Some e \<Longrightarrow> 0 \<le> sizeBytes e"
  by (induction ns) (auto simp: entrySizes_def split: if_splits)

lemma entrySizes_sum_pos:
  "list_all (\<lambda>n. 0 \<le> n) (entrySizes ns) \<Longrightarrow> 0 \<le> sum_list (entrySizes ns)"
  by (induction ns) (auto simp: entrySizes_def)

lemma removeNode_config [simp]:
  "maxEntries (removeNode c k) = maxEntries c" "maxBytes (removeNode c k) = maxBytes c"
  "ttlMs (removeNode c k) = ttlMs c" "cacheNextCleanupAt (removeNode c k) = cacheNextCleanupAt c"
  by (simp_all add: removeNode_def split: option.splits)

lemma removeNode_inv:
  assumes "cacheInv c"
  shows "cacheInv (removeNode c k) \<and> totalBytes (removeNode c k) \<le> totalBytes c
       \<and> length (nodes (removeNode c k)) \<le> length (nodes c)
       \<and> set (nodes (removeNode c k)) \<subseteq> set (nodes c)
       \<and> map_of (nodes (removeNode c k)) k = None"
proof (cases "map_of (nodes c) k")
  case None
  then show ?thesis using assms by (simp add: removeNode_def)
next
  case (Some e)
  have d: "distinct (map fst (nodes c))" and pos: "list_all (\<lambda>n. 0 \<le> n) (entrySizes (nodes c))"
    and tot: "totalBytes c = sum_list (entrySizes (nodes c))"
    using assms by (simp_all add: cacheInv_def)
  have s: "sum_list (entrySizes (AList.delete k (nodes c))) = totalBytes c - sizeBytes e"
    using entrySizes_delete [OF d Some] tot by simp
  have nn: "0 \<le> sum_list (entrySizes (AList.delete k (nodes c)))"
    using entrySizes_sum_pos [OF entrySizes_delete_pos [OF pos]] .
  have e0: "0 \<le> sizeBytes e" using entrySizes_lookup_pos [OF pos Some] .
  have eq: "removeNode c k = c\<lparr>nodes := AList.delete k (nodes c), totalBytes := totalBytes c - sizeBytes e\<rparr>"
    using Some s nn by (simp add: removeNode_def max_def)
  have sub: "set (AList.delete k (nodes c)) \<subseteq> set (nodes c)"
    by (auto simp: AList.delete_eq)
  show ?thesis
    unfolding eq
    using assms s e0 sub entrySizes_delete_pos [OF pos, of k]
    by (simp add: cacheInv_def AList.distinct_delete AList.length_delete_le AList.delete_conv')
qed

lemma evictIfNeeded_inv:
  assumes "cacheInv c"
  shows "cacheInv (evictIfNeeded c) \<and> cacheBounded (evictIfNeeded c)
       \<and> set (nodes (evictIfNeeded c)) \<subseteq> set (nodes c)
       \<and> maxEntries (evictIfNeeded c) = maxEntries c \<and> maxBytes (evictIfNeeded c) = maxBytes c
       \<and> ttlMs (evictIfNeeded c) = ttlMs c"
  using assms
proof (induction c rule: evictIfNeeded.induct)
  case (1 c)
  show ?case
  proof (cases "int (length (nodes c)) > maxEntries c \<or> totalBytes c > maxBytes c")
    case False
    then have "evictIfNeeded c = c" by (simp add: evictIfNeeded.simps [of c])
    then show ?thesis using "1.prems" False by (simp add: cacheBounded_def)
  next
    case over: True
    show ?thesis
    proof (cases "nodes c = []")
      case True
      then have e: "evictIfNeeded c = c" using over by (simp add: evictIfNeeded.simps [of c])
      have "totalBytes c = 0" using "1.prems" True by (simp add: cacheInv_def entrySizes_def)
      then show ?thesis using "1.prems" True by (simp add: e cacheBounded_def cacheInv_def)
    next
      case False
      define c' where "c' = removeNode c (fst (last (nodes c)))"
      have e: "evictIfNeeded c = evictIfNeeded c'"
        using over False by (simp add: evictIfNeeded.simps [of c] c'_def)
      note r = removeNode_inv [OF "1.prems", of "fst (last (nodes c))", folded c'_def]
      from "1.IH" [OF over False] r
      have "cacheInv (evictIfNeeded c') \<and> cacheBounded (evictIfNeeded c')
            \<and> set (nodes (evictIfNeeded c')) \<subseteq> set (nodes c')
            \<and> maxEntries (evictIfNeeded c') = maxEntries c' \<and> maxBytes (evictIfNeeded c') = maxBytes c'
            \<and> ttlMs (evictIfNeeded c') = ttlMs c'"
        by (simp add: c'_def)
      then show ?thesis unfolding e using r by (auto simp: c'_def)
    qed
  qed
qed

lemma expire_fold_inv:
  assumes "cacheInv acc"
  shows "cacheInv (fold (\<lambda>(k, entry) a. if expiresAt entry \<le> now then removeNode a k else a) xs acc)
       \<and> set (nodes (fold (\<lambda>(k, entry) a. if expiresAt entry \<le> now then removeNode a k else a) xs acc))
            \<subseteq> set (nodes acc)
       \<and> maxEntries (fold (\<lambda>(k, entry) a. if expiresAt entry \<le> now then removeNode a k else a) xs acc)
            = maxEntries acc
       \<and> maxBytes (fold (\<lambda>(k, entry) a. if expiresAt entry \<le> now then removeNode a k else a) xs acc)
            = maxBytes acc
       \<and> ttlMs (fold (\<lambda>(k, entry) a. if expiresAt entry \<le> now then removeNode a k else a) xs acc)
            = ttlMs acc"
  using assms
proof (induction xs arbitrary: acc)
  case Nil
  then show ?case by simp
next
  case (Cons x xs)
  obtain k e where x: "x = (k, e)" by (cases x)
  show ?case
  proof (cases "expiresAt e \<le> now")
    case True
    note r = removeNode_inv [OF Cons.prems, of k]
    from r have i: "cacheInv (removeNode acc k)" by simp
    show ?thesis using Cons.IH [OF i] r True by (auto simp: x)
  next
    case False
    then show ?thesis using Cons.IH [OF Cons.prems] by (simp add: x)
  qed
qed

lemma cacheCleanup_ok:
  assumes "cacheInv c"
  shows "cacheOK (cacheCleanup c now) \<and> set (nodes (cacheCleanup c now)) \<subseteq> set (nodes c)
       \<and> maxEntries (cacheCleanup c now) = maxEntries c \<and> maxBytes (cacheCleanup c now) = maxBytes c
       \<and> ttlMs (cacheCleanup c now) = ttlMs c"
proof -
  define c1 where
    "c1 = fold (\<lambda>(k, entry) a. if expiresAt entry \<le> now then removeNode a k else a) (rev (nodes c)) c"
  note f = expire_fold_inv [OF assms, of now "rev (nodes c)", folded c1_def]
  from f have i: "cacheInv c1" by simp
  note e = evictIfNeeded_inv [OF i]
  have eq: "cacheCleanup c now
            = (evictIfNeeded c1)\<lparr>cacheNextCleanupAt := now + min (ttlMs c) CACHE_CLEANUP_INTERVAL_MS\<rparr>"
    by (simp add: cacheCleanup_def c1_def)
  show ?thesis unfolding eq using e f by (auto simp: cacheOK_def cacheInv_def cacheBounded_def)
qed

lemma cacheMaybeCleanup_ok:
  assumes "cacheOK c"
  shows "cacheOK (cacheMaybeCleanup c now) \<and> set (nodes (cacheMaybeCleanup c now)) \<subseteq> set (nodes c)
       \<and> maxEntries (cacheMaybeCleanup c now) = maxEntries c
       \<and> maxBytes (cacheMaybeCleanup c now) = maxBytes c
       \<and> ttlMs (cacheMaybeCleanup c now) = ttlMs c"
proof (cases "now < cacheNextCleanupAt c")
  case True
  then show ?thesis using assms by (simp add: cacheMaybeCleanup_def)
next
  case False
  have i: "cacheInv c" using assms by (simp add: cacheOK_def)
  show ?thesis using False cacheCleanup_ok [OF i, of now] by (simp add: cacheMaybeCleanup_def)
qed

lemma cacheGet_ok:
  assumes "cacheOK c"
  shows "cacheOK (snd (cacheGet c service token now))
       \<and> maxEntries (snd (cacheGet c service token now)) = maxEntries c
       \<and> maxBytes (snd (cacheGet c service token now)) = maxBytes c"
proof -
  define c1 where "c1 = cacheMaybeCleanup c now"
  define k where "k = buildCacheKey service token"
  note m = cacheMaybeCleanup_ok [OF assms, of now, folded c1_def]
  from m have ok1: "cacheOK c1" by simp
  then have i1: "cacheInv c1" and b1: "cacheBounded c1" by (simp_all add: cacheOK_def)
  show ?thesis
  proof (cases "map_of (nodes c1) k")
    case None
    then have "snd (cacheGet c service token now) = c1"
      by (simp add: cacheGet_def c1_def k_def)
    then show ?thesis using m by simp
  next
    case (Some e)
    show ?thesis
    proof (cases "expiresAt e \<le> now")
      case True
      then have eq: "snd (cacheGet c service token now) = removeNode c1 k"
        using Some by (simp add: cacheGet_def c1_def k_def)
      note r = removeNode_inv [OF i1, of k]
      show ?thesis unfolding eq using r b1 m by (auto simp: cacheOK_def cacheBounded_def)
    next
      case False
      then have eq: "snd (cacheGet c service token now) = c1\<lparr>nodes := (k, e) # AList.delete k (nodes c1)\<rparr>"
        using Some by (simp add: cacheGet_def c1_def k_def Let_def)
      have d: "distinct (map fst (nodes c1))" and pos: "list_all (\<lambda>n. 0 \<le> n) (entrySizes (nodes c1))"
        and tot: "totalBytes c1 = sum_list (entrySizes (nodes c1))"
        using i1 by (simp_all add: cacheInv_def)
      have s: "sum_list (entrySizes (AList.delete k (nodes c1))) = totalBytes c1 - sizeBytes e"
        using entrySizes_delete [OF d Some] tot by simp
      have e0: "0 \<le> sizeBytes e" using entrySizes_lookup_pos [OF pos Some] .
      have mem: "k \<in> fst ` set (nodes c1)" using Some by (meson domI dom_map_of_conv_image_fst [THEN equalityD1] subsetD)
      have len: "length (AList.delete k (nodes c1)) < length (nodes c1)"
        using mem by (rule length_delete_less)
      have nk: "k \<notin> fst ` set (AList.delete k (nodes c1))" by (simp add: AList.delete_notin_dom)
      have "cacheInv (c1\<lparr>nodes := (k, e) # AList.delete k (nodes c1)\<rparr>)"
        using i1 s e0 nk entrySizes_delete_pos [OF pos, of k]
        by (simp add: cacheInv_def AList.distinct_delete entrySizes_def)
      moreover have "cacheBounded (c1\<lparr>nodes := (k, e) # AList.delete k (nodes c1)\<rparr>)"
        using b1 len by (simp add: cacheBounded_def)
      ultimately show ?thesis unfolding eq using m by (simp add: cacheOK_def)
    qed
  qed
qed

lemma estimateResponseSize_nonneg: "0 \<le> estimateResponseSize toNumber r"
  by (auto simp: estimateResponseSize_def parseContentLength_def DEFAULT_ENTRY_SIZE_BYTES_def
           split: option.splits if_splits)

lemma cacheSet_ok:
  assumes "cacheOK c"
  shows "cacheOK (cacheSet toNumber c service token r now)
       \<and> maxEntries (cacheSet toNumber c service token r now) = maxEntries c
       \<and> maxBytes (cacheSet toNumber c service token r now) = maxBytes c"
proof (cases "status r = 200")
  case False
  then show ?thesis using assms by (simp add: cacheSet_def)
next
  case ok: True
  define c1 where "c1 = cacheMaybeCleanup c now"
  define k where "k = buildCacheKey service token"
  define size where "size = estimateResponseSize toNumber r"
  note m = cacheMaybeCleanup_ok [OF assms, of now, folded c1_def]
  from m have ok1: "cacheOK c1" by simp
  then have i1: "cacheInv c1" and b1: "cacheBounded c1" by (simp_all add: cacheOK_def)
  note rm = removeNode_inv [OF i1, of k]
  show ?thesis
  proof (cases "size > maxBytes c1")
    case True
    then have eq: "cacheSet toNumber c service token r now = removeNode c1 k"
      using ok by (simp add: cacheSet_def c1_def k_def size_def Let_def)
    show ?thesis unfolding eq using rm b1 m by (auto simp: cacheOK_def cacheBounded_def)
  next
    case False
    define c2 where "c2 = removeNode c1 k"
    define c3 where
      "c3 = c2\<lparr>nodes := (k, \<lparr>expiresAt = now + ttlMs c2, response = r, sizeBytes = size\<rparr>) # nodes c2,
               totalBytes := totalBytes c2 + size\<rparr>"
    have eq: "cacheSet toNumber c service token r now = evictIfNeeded c3"
      using ok False by (simp add: cacheSet_def c1_def k_def size_def Let_def c2_def c3_def)
    have i2: "cacheInv c2" and nk: "map_of (nodes c2) k = None" using rm by (simp_all add: c2_def)
    have nk': "k \<notin> fst ` set (nodes c2)" using nk by (simp add: map_of_eq_None_iff)
    have s0: "0 \<le> size" unfolding size_def by (rule estimateResponseSize_nonneg)
    have i3: "cacheInv c3"
      using i2 nk' s0 by (simp add: c3_def cacheInv_def entrySizes_def)
    note e = evictIfNeeded_inv [OF i3]
    have cfg: "maxEntries c3 = maxEntries c1" "maxBytes c3 = maxBytes c1"
      by (simp_all add: c3_def c2_def)
    show ?thesis unfolding eq using e cfg m by (simp add: cacheOK_def)
  qed
qed

lemma newSubscriptionCache_ok: "cacheOK (newSubscriptionCache now ttl entriesCap bytesCap)"
  by (auto simp: newSubscriptionCache_def cacheOK_def cacheInv_def cacheBounded_def entrySizes_def
        DEFAULT_ENTRY_SIZE_BYTES_def max_def)

lemma applyCacheOp_ok:
  assumes "cacheOK c"
  shows "cacheOK (applyCacheOp toNumber c op) \<and> maxEntries (applyCacheOp toNumber c op) = maxEntries c
       \<and> maxBytes (applyCacheOp toNumber c op) = maxBytes c"
proof (cases op)
  case (CacheGet service token now)
  then show ?thesis using cacheGet_ok [OF assms] by simp
next
  case (CacheSet service token r now)
  then show ?thesis using cacheSet_ok [OF assms] by simp
next
  case (CacheCleanup now)
  have "cacheInv c" using assms by (simp add: cacheOK_def)
  then show ?thesis using cacheCleanup_ok [of c now] CacheCleanup by simp
qed

lemma runCacheOps_ok:
  assumes "cacheOK c"
  shows "cacheOK (runCacheOps toNumber c ops) \<and> maxEntries (runCacheOps toNumber c ops) = maxEntries c
       \<and> maxBytes (runCacheOps toNumber c ops) = maxBytes c"
  using assms unfolding runCacheOps_def
proof (induction ops arbitrary: c)
  case Nil
  then show ?case by simp
next
  case (Cons op ops)
  note a = applyCacheOp_ok [OF Cons.prems, of toNumber op]
  from a have "cacheOK (applyCacheOp toNumber c op)" by simp
  from Cons.IH [OF this] a show ?case by simp
qed

lemma cacheSet_oversize:
  assumes "cacheOK c" and "status r = 200" and "maxBytes c < estimateResponseSize toNumber r"
  shows "set (nodes (cacheSet toNumber c service token r now)) \<subseteq> set (nodes c)
       \<and> map_of (nodes (cacheSet toNumber c service token r now)) (buildCacheKey service token) = None"
proof -
  define c1 where "c1 = cacheMaybeCleanup c now"
  note m = cacheMaybeCleanup_ok [OF assms(1), of now, folded c1_def]
  from m have i1: "cacheInv c1" by (simp add: cacheOK_def)
  have eq: "cacheSet toNumber c service token r now = removeNode c1 (buildCacheKey service token)"
    using assms(2,3) m by (simp add: cacheSet_def c1_def Let_def)
  show ?thesis unfolding eq using removeNode_inv [OF i1, of "buildCacheKey service token"] m by auto
qed

text \<open>
  Claim C5. In every cache reached from a new one by \<open>get\<close>, \<open>set\<close> and \<open>cleanup\<close> calls,
  right after a \<open>set\<close> the tracked total is the sum of the stored sizes and is at most the
  configured byte cap, and the number of entries is at most the configured entry cap. A \<open>set\<close>
  of a response whose status is not 200 leaves the cache as it was; a \<open>set\<close> of a response
  whose estimated size exceeds the byte cap adds no entry, and leaves none under its key.
\<close>

theorem cache_set_bounds:
  "let c = runCacheOps toNumber (newSubscriptionCache now0 ttl entriesCap bytesCap) ops;
       c' = cacheSet toNumber c service token r now;
       byteCap = max DEFAULT_ENTRY_SIZE_BYTES bytesCap
   in totalBytes c' = sum_list (entrySizes (nodes c'))
    \<and> totalBytes c' \<le> byteCap
    \<and> int (length (nodes c')) \<le> max 1 entriesCap
    \<and> (status r \<noteq> 200 \<longrightarrow> c' = c)
    \<and> (byteCap < estimateResponseSize toNumber r \<longrightarrow>
         set (nodes c') \<subseteq> set (nodes c)
         \<and> (status r = 200 \<longrightarrow> map_of (nodes c') (buildCacheKey service token) = None))"
proof -
  define c0 where "c0 = newSubscriptionCache now0 ttl entriesCap bytesCap"
  define c where "c = runCacheOps toNumber c0 ops"
  define c' where "c' = cacheSet toNumber c service token r now"
  have ok0: "cacheOK c0" unfolding c0_def by (rule newSubscriptionCache_ok)
  have cfg0: "maxEntries c0 = max 1 entriesCap" "maxBytes c0 = max DEFAULT_ENTRY_SIZE_BYTES bytesCap"
    by (simp_all add: c0_def newSubscriptionCache_def)
  note r1 = runCacheOps_ok [OF ok0, of toNumber ops, folded c_def]
  from r1 have ok: "cacheOK c" by simp
  note s1 = cacheSet_ok [OF ok, of toNumber service token r now, folded c'_def]
  have a: "totalBytes c' = sum_list (entrySizes (nodes c'))"
    using s1 by (simp add: cacheOK_def cacheInv_def)
  have b: "totalBytes c' \<le> max DEFAULT_ENTRY_SIZE_BYTES bytesCap"
    using s1 r1 cfg0 by (simp add: cacheOK_def cacheBounded_def)
  have d: "int (length (nodes c')) \<le> max 1 entriesCap"
    using s1 r1 cfg0 by (simp add: cacheOK_def cacheBounded_def)
  have e: "status r \<noteq> 200 \<longrightarrow> c' = c" by (simp add: c'_def cacheSet_def)
  have f: "set (nodes c') \<subseteq> set (nodes c)
           \<and> (status r = 200 \<longrightarrow> map_of (nodes c') (buildCacheKey service token) = None)"
    if over: "max DEFAULT_ENTRY_SIZE_BYTES bytesCap < estimateResponseSize toNumber r"
  proof (cases "status r = 200")
    case True
    have "maxBytes c < estimateResponseSize toNumber r" using over r1 cfg0 by simp
    from cacheSet_oversize [OF ok True this, of service token now] show ?thesis
      by (simp add: c'_def)
  next
    case False
    then show ?thesis using e by simp
  qed
  show ?thesis
    unfolding Let_def c_def [symmetric] c0_def [symmetric] c'_def [symmetric]
    using a b d e f by blast
qed

theorem cache_set_bounds_witness:
  "(let big = \<lparr>status = 200, contentLengthHeader = Some ''9000''\<rparr>;
        c' = cacheSet exampleToNumber exampleCache ''a'' ''t'' big 30
    in max DEFAULT_ENTRY_SIZE_BYTES 8192 < estimateResponseSize exampleToNumber big
     \<and> totalBytes c' \<le> 8192 \<and> int (length (nodes c')) \<le> 2
     \<and> set (nodes c') \<subseteq> set (nodes exampleCache)
     \<and> map_of (nodes c') (buildCacheKey ''a'' ''t'') = None)
   \<and> (let missing = \<lparr>status = 404, contentLengthHeader = None\<rparr>
      in status missing \<noteq> 200
       \<and> cacheSet exampleToNumber exampleCache ''a'' ''t'' missing 30 = exampleCache)"
proof -
  have h1: "max DEFAULT_ENTRY_SIZE_BYTES 8192 < estimateResponseSize exampleToNumber
              \<lparr>status = 200, contentLengthHeader = Some ''9000''\<rparr>"
    by (simp add: DEFAULT_ENTRY_SIZE_BYTES_def estimateResponseSize_def parseContentLength_def
          exampleToNumber_def)
  have m: "max DEFAULT_ENTRY_SIZE_BYTES 8192 = 8192" "max (1::int) 2 = 2"
    by (simp_all add: DEFAULT_ENTRY_SIZE_BYTES_def)
  note t1 = cache_set_bounds [where toNumber = exampleToNumber and ?now0.0 = 0 and ttl = 5000
      and entriesCap = 2 and bytesCap = 8192
      and ops = "[CacheSet ''a'' ''t'' \<lparr>status = 200, contentLengthHeader = None\<rparr> 10,
                  CacheSet ''b'' ''t'' \<lparr>status = 200, contentLengthHeader = None\<rparr> 20]"
      and service = "''a''" and token = "''t''"
      and r = "\<lparr>status = 200, contentLengthHeader = Some ''9000''\<rparr>" and now = 30,
      folded exampleCache_def, unfolded Let_def m]
  note t2 = cache_set_bounds [where toNumber = exampleToNumber and ?now0.0 = 0 and ttl = 5000
      and entriesCap = 2 and bytesCap = 8192
      and ops = "[CacheSet ''a'' ''t'' \<lparr>status = 200, contentLengthHeader = None\<rparr> 10,
                  CacheSet ''b'' ''t'' \<lparr>status = 200, contentLengthHeader = None\<rparr> 20]"
      and service = "''a''" and token = "''t''"
      and r = "\<lparr>status = 404, contentLengthHeader = None\<rparr>" and now = 30,
      folded exampleCache_def, unfolded Let_def m]
  show ?thesis unfolding Let_def m using t1 t2 h1 [unfolded m] by simp
qed

subsection \<open>Bounded read of the upstream body\<close>

lemma growCapacity_returns:
  assumes "0 < cap"
  shows "\<exists>n. growCapacity cap required mx = Some n \<and> \<not> (n < required \<and> n < mx) \<and> cap \<le> n"
  using assms
proof (induction "mx - cap" arbitrary: cap rule: less_induct)
  case less
  show ?case
  proof (cases "cap < required \<and> cap < mx")
    case False
    then have "growCapacity cap required mx = Some cap"
      by (subst growCapacity.simps) auto
    then show ?thesis using False by simp
  next
    case True
    define cap' where "cap' = min mx (cap * 2)"
    have step: "growCapacity cap required mx = growCapacity cap' required mx"
      using True by (subst growCapacity.simps) (simp add: cap'_def)
    have gt: "cap < cap'" using True less.prems by (simp add: cap'_def)
    then have m: "mx - cap' < mx - cap" using True by (simp add: cap'_def) linarith
    have "0 < cap'" using gt by simp
    from less.hyps [OF m this] obtain n where
      n: "growCapacity cap' required mx = Some n" "\<not> (n < required \<and> n < mx)" "cap' \<le> n"
      by blast
    then show ?thesis using step gt by auto
  qed
qed

lemma readLoop_step:
  assumes "0 < length buffer" and "totalLength \<le> length buffer"
    and "totalLength + length chunk \<le> mx"
  shows "\<exists>written. readLoop mx buffer totalLength (chunk # rest) ending
                    = readLoop mx written (totalLength + length chunk) rest ending
               \<and> 0 < length written \<and> totalLength + length chunk \<le> length written
               \<and> take (totalLength + length chunk) written = take totalLength buffer @ chunk"
proof -
  define total where "total = totalLength + length chunk"
  have le: "total \<le> mx" using assms(3) by (simp add: total_def)
  have off: "total - length chunk = totalLength" by (simp add: total_def)
  show ?thesis
  proof (cases "total > length buffer")
    case False
    define written where
      "written = take totalLength buffer @ chunk @ drop (totalLength + length chunk) buffer"
    have w: "bufferSet buffer chunk totalLength = Some written"
      using False by (simp add: bufferSet_def written_def total_def)
    have lw: "length written = length buffer"
      using False assms(2) by (simp add: written_def total_def)
    have tw: "take total written = take totalLength buffer @ chunk"
      using assms(2) by (simp add: written_def total_def)
    have step: "readLoop mx buffer totalLength (chunk # rest) ending
                = readLoop mx written total rest ending"
      using False le w by (simp add: Let_def total_def [symmetric] off)
    have p1: "0 < length written" using lw assms(1) by simp
    have p2: "total \<le> length written" using lw False by simp
    show ?thesis using step p1 p2 tw unfolding total_def by blast
  next
    case True
    from growCapacity_returns [OF assms(1), of total mx] obtain n where
      n: "growCapacity (length buffer) total mx = Some n" "\<not> (n < total \<and> n < mx)"
         "length buffer \<le> n"
      by blast
    have nt: "total \<le> n" using n(2) le by linarith
    define nextBuffer where
      "nextBuffer = take totalLength buffer @ drop totalLength (replicate n (0::byte))"
    have b1: "bufferSet (replicate n 0) (take totalLength buffer) 0 = Some nextBuffer"
      using nt assms(2) n(3) by (simp add: bufferSet_def nextBuffer_def min_absorb2)
    have ln: "length nextBuffer = n" using assms(2) n(3) by (simp add: nextBuffer_def)
    define written where
      "written = take totalLength nextBuffer @ chunk @ drop (totalLength + length chunk) nextBuffer"
    have b2: "bufferSet nextBuffer chunk totalLength = Some written"
      using nt ln by (simp add: bufferSet_def written_def total_def)
    have lw: "length written = n"
      using nt ln by (simp add: written_def total_def)
    have tn: "take totalLength nextBuffer = take totalLength buffer"
      using assms(2) by (simp add: nextBuffer_def)
    have tw: "take total written = take totalLength buffer @ chunk"
      using nt ln assms(2) by (simp add: written_def total_def tn)
    have step: "readLoop mx buffer totalLength (chunk # rest) ending
                = readLoop mx written total rest ending"
      using True le n(1) nt b1 b2 by (simp add: Let_def total_def [symmetric] off)
    have p1: "0 < length written" using lw n(3) assms(1) by linarith
    have p2: "total \<le> length written" using lw nt by simp
    show ?thesis using step p1 p2 tw unfolding total_def by blast
  qed
qed

lemma readLoop_done:
  assumes "0 < length buffer" and "totalLength \<le> length buffer"
    and "totalLength + length (concat chunks) \<le> mx"
  shows "\<exists>filled. readLoop mx buffer totalLength chunks StreamDone
                   = Some (Inr (filled, totalLength + length (concat chunks)))
               \<and> totalLength + length (concat chunks) \<le> length filled
               \<and> take (totalLength + length (concat chunks)) filled
                  = take totalLength buffer @ concat chunks"
  using assms
proof (induction chunks arbitrary: buffer totalLength)
  case Nil
  then show ?case by simp
next
  case (Cons chunk rest)
  define total where "total = totalLength + length chunk"
  have le: "totalLength + length chunk \<le> mx" using Cons.prems(3) by simp
  have rest: "total + length (concat rest) \<le> mx" using Cons.prems(3) by (simp add: total_def)
  have sum: "totalLength + length (concat (chunk # rest)) = total + length (concat rest)"
    by (simp add: total_def)
  from readLoop_step [OF Cons.prems(1,2) le, of rest StreamDone, folded total_def]
  obtain written where
    w: "readLoop mx buffer totalLength (chunk # rest) StreamDone = readLoop mx written total rest StreamDone"
       "0 < length written" "total \<le> length written"
       "take total written = take totalLength buffer @ chunk"
    by blast
  from Cons.IH [OF w(2,3) rest] obtain filled where
    f: "readLoop mx written total rest StreamDone = Some (Inr (filled, total + length (concat rest)))"
       "total + length (concat rest) \<le> length filled"
       "take (total + length (concat rest)) filled = take total written @ concat rest"
    by blast
  show ?case unfolding sum w(1) using f w(4) by simp
qed

lemma readLoop_overflow:
  assumes "0 < length buffer" and "totalLength \<le> length buffer" and "totalLength \<le> mx"
    and "mx < totalLength + length (concat chunks)"
  shows "readLoop mx buffer totalLength chunks ending = Some (Inl MaxSizeError)"
  using assms
proof (induction chunks arbitrary: buffer totalLength)
  case Nil
  then show ?case by simp
next
  case (Cons chunk rest)
  define total where "total = totalLength + length chunk"
  show ?case
  proof (cases "mx < total")
    case True
    then show ?thesis by (simp add: Let_def total_def)
  next
    case False
    then have le: "totalLength + length chunk \<le> mx" by (simp add: total_def)
    have rest: "mx < total + length (concat rest)" using Cons.prems(4) by (simp add: total_def)
    from readLoop_step [OF Cons.prems(1,2) le, of rest ending, folded total_def]
    obtain written where
      w: "readLoop mx buffer totalLength (chunk # rest) ending = readLoop mx written total rest ending"
         "0 < length written" "total \<le> length written"
      by blast
    have "total \<le> mx" using False by simp
    from Cons.IH [OF w(2,3) this rest] show ?thesis unfolding w(1) .
  qed
qed

lemma read_exact:
  assumes body: "upstreamBody resp = Some (chunks, StreamDone)"
    and len: "length (concat chunks) \<le> mx"
    and hdr: "proxyParseContentLength toNumber (upstreamContentLength resp) = None
              \<or> (\<exists>n. proxyParseContentLength toNumber (upstreamContentLength resp) = Some n
                      \<and> 0 < n \<and> n \<le> mx)"
  shows "readResponseBodyWithLimit toNumber resp mx = Some (Inr (concat chunks))"
proof -
  define declared where "declared = proxyParseContentLength toNumber (upstreamContentLength resp)"
  define buffer where
    "buffer = replicate (max 1 (min mx (case declared of None \<Rightarrow> INITIAL_READ_BUFFER_BYTES | Some n \<Rightarrow> n)))
                (0::byte)"
  have g1: "\<not> (case declared of None \<Rightarrow> False | Some n \<Rightarrow> n > mx)"
    using hdr by (auto simp: declared_def)
  have g2: "declared \<noteq> Some 0" using hdr by (auto simp: declared_def)
  have b0: "0 < length buffer" by (simp add: buffer_def)
  from readLoop_done [OF b0, of 0 chunks mx] len obtain filled where
    f: "readLoop mx buffer 0 chunks StreamDone = Some (Inr (filled, length (concat chunks)))"
       "length (concat chunks) \<le> length filled"
       "take (length (concat chunks)) filled = concat chunks"
    by auto
  have "readResponseBodyWithLimit toNumber resp mx
        = Some (Inr (if length (concat chunks) = length filled then filled
                     else take (length (concat chunks)) filled))"
    unfolding readResponseBodyWithLimit_def Let_def declared_def [symmetric]
    unfolding buffer_def [symmetric]
    using g1 g2 body f(1) by simp
  moreover have "(if length (concat chunks) = length filled then filled
                  else take (length (concat chunks)) filled) = concat chunks"
    using f(3) by (cases "length (concat chunks) = length filled") auto
  ultimately show ?thesis by simp
qed

lemma read_overflow:
  assumes body: "upstreamBody resp = Some (chunks, ending)"
    and len: "mx < length (concat chunks)"
    and hdr: "proxyParseContentLength toNumber (upstreamContentLength resp) \<noteq> Some 0"
  shows "readResponseBodyWithLimit toNumber resp mx = Some (Inl MaxSizeError)"
proof -
  define declared where "declared = proxyParseContentLength toNumber (upstreamContentLength resp)"
  define buffer where
    "buffer = replicate (max 1 (min mx (case declared of None \<Rightarrow> INITIAL_READ_BUFFER_BYTES | Some n \<Rightarrow> n)))
                (0::byte)"
  show ?thesis
  proof (cases "case declared of None \<Rightarrow> False | Some n \<Rightarrow> n > mx")
    case True
    then show ?thesis
      by (simp add: readResponseBodyWithLimit_def Let_def declared_def [symmetric])
  next
    case False
    have b0: "0 < length buffer" by (simp add: buffer_def)
    have "readLoop mx buffer 0 chunks ending = Some (Inl MaxSizeError)"
      using readLoop_overflow [OF b0, of 0 mx chunks ending] len by simp
    then show ?thesis
      unfolding readResponseBodyWithLimit_def Let_def declared_def [symmetric]
      unfolding buffer_def [symmetric]
      using False hdr [folded declared_def] body by simp
  qed
qed

lemma read_declared_over:
  assumes "proxyParseContentLength toNumber (upstreamContentLength resp) = Some n" and "mx < n"
  shows "readResponseBodyWithLimit toNumber resp mx = Some (Inl MaxSizeError)"
  using assms by (simp add: readResponseBodyWithLimit_def Let_def)

lemma proxy_size_limit:
  assumes "resolveSubscriptionTarget (routeService route) targets = Some target"
    and "readResponseBodyWithLimit toNumber resp MAX_RESPONSE_SIZE_BYTES = Some (Inl MaxSizeError)"
  shows "proxySubscriptionRequest toNumber route targets preserveDomain rewrite (Inr resp)
         = Some \<lparr>resultService = targetName target, resultToken = routeToken route,
                 resultResponse = textResponse 502 ''Subscription response exceeded size limit.''\<rparr>"
  using assms by (simp add: proxySubscriptionRequest_def)

text \<open>
  Claim C6. For an upstream response whose \<open>Content-Length\<close> header is absent, does not parse,
  or declares between 1 and 10 MiB, and whose body ends after exactly 10 MiB, the bounded read
  returns the bytes of the body, in order. When the body holds 10 MiB + 1 bytes (and the header
  does not declare 0), or when the header declares more than 10 MiB, the request is answered
  with status 502 and the size-limit message.
\<close>

theorem bounded_read_limit:
  assumes "declared = proxyParseContentLength toNumber (upstreamContentLength resp)"
    and "resolveSubscriptionTarget (routeService route) targets = Some target"
  shows "(upstreamBody resp = Some (chunks, StreamDone)
          \<and> length (concat chunks) = MAX_RESPONSE_SIZE_BYTES
          \<and> (declared = None \<or> (\<exists>n. declared = Some n \<and> 0 < n \<and> n \<le> MAX_RESPONSE_SIZE_BYTES))
          \<longrightarrow> readResponseBodyWithLimit toNumber resp MAX_RESPONSE_SIZE_BYTES
                = Some (Inr (concat chunks)))
       \<and> ((upstreamBody resp = Some (chunks, ending)
            \<and> length (concat chunks) = MAX_RESPONSE_SIZE_BYTES + 1 \<and> declared \<noteq> Some 0
            \<or> (\<exists>n. declared = Some n \<and> MAX_RESPONSE_SIZE_BYTES < n))
          \<longrightarrow> proxySubscriptionRequest toNumber route targets preserveDomain rewrite (Inr resp)
                = Some \<lparr>resultService = targetName target, resultToken = routeToken route,
                        resultResponse =
                          textResponse 502 ''Subscription response exceeded size limit.''\<rparr>)"
proof (intro conjI impI)
  assume a: "upstreamBody resp = Some (chunks, StreamDone)
             \<and> length (concat chunks) = MAX_RESPONSE_SIZE_BYTES
             \<and> (declared = None \<or> (\<exists>n. declared = Some n \<and> 0 < n \<and> n \<le> MAX_RESPONSE_SIZE_BYTES))"
  then have b: "upstreamBody resp = Some (chunks, StreamDone)"
    and l: "length (concat chunks) \<le> MAX_RESPONSE_SIZE_BYTES" by simp_all
  have h: "proxyParseContentLength toNumber (upstreamContentLength resp) = None
           \<or> (\<exists>n. proxyParseContentLength toNumber (upstreamContentLength resp) = Some n
                   \<and> 0 < n \<and> n \<le> MAX_RESPONSE_SIZE_BYTES)"
    using a unfolding assms(1) by blast
  show "readResponseBodyWithLimit toNumber resp MAX_RESPONSE_SIZE_BYTES = Some (Inr (concat chunks))"
    using b l h by (rule read_exact)
next
  assume a: "upstreamBody resp = Some (chunks, ending)
             \<and> length (concat chunks) = MAX_RESPONSE_SIZE_BYTES + 1 \<and> declared \<noteq> Some 0
             \<or> (\<exists>n. declared = Some n \<and> MAX_RESPONSE_SIZE_BYTES < n)"
  have "readResponseBodyWithLimit toNumber resp MAX_RESPONSE_SIZE_BYTES = Some (Inl MaxSizeError)"
  proof (cases "\<exists>n. declared = Some n \<and> MAX_RESPONSE_SIZE_BYTES < n")
    case True
    then obtain n where "proxyParseContentLength toNumber (upstreamContentLength resp) = Some n"
      and "MAX_RESPONSE_SIZE_BYTES < n" unfolding assms(1) by blast
    then show ?thesis by (rule read_declared_over)
  next
    case False
    then have b: "upstreamBody resp = Some (chunks, ending)"
      and l: "MAX_RESPONSE_SIZE_BYTES < length (concat chunks)"
      and h: "proxyParseContentLength toNumber (upstreamContentLength resp) \<noteq> Some 0"
      using a unfolding assms(1) by auto
    then show ?thesis by (rule read_overflow)
  qed
  with assms(2)
  show "proxySubscriptionRequest toNumber route targets preserveDomain rewrite (Inr resp)
        = Some \<lparr>resultService = targetName target, resultToken = routeToken route,
                resultResponse = textResponse 502 ''Subscription response exceeded size limit.''\<rparr>"
    by (rule proxy_size_limit)
qed

theorem bounded_read_limit_witness:
  "readResponseBodyWithLimit exampleDeclared
     \<lparr>upstreamStatus = 200, upstreamContentLength = None,
      upstreamBody = Some ([tenMiB], StreamDone)\<rparr> MAX_RESPONSE_SIZE_BYTES
   = Some (Inr tenMiB)
   \<and> proxySubscriptionRequest exampleDeclared exampleRoute [exampleTarget] False Some
       (Inr \<lparr>upstreamStatus = 200, upstreamContentLength = None,
             upstreamBody = Some ([tenMiB, [66]], StreamDone)\<rparr>)
     = Some \<lparr>resultService = ''default'', resultToken = ''t'',
             resultResponse = textResponse 502 ''Subscription response exceeded size limit.''\<rparr>
   \<and> proxySubscriptionRequest exampleDeclared exampleRoute [exampleTarget] False Some
       (Inr \<lparr>upstreamStatus = 200, upstreamContentLength = Some ''20000000'',
             upstreamBody = Some ([[66]], StreamDone)\<rparr>)
     = Some \<lparr>resultService = ''default'', resultToken = ''t'',
             resultResponse = textResponse 502 ''Subscription response exceeded size limit.''\<rparr>"
proof -
  have len: "length tenMiB = MAX_RESPONSE_SIZE_BYTES"
    by (simp add: tenMiB_def MAX_RESPONSE_SIZE_BYTES_def)
  have tgt: "resolveSubscriptionTarget (routeService exampleRoute) [exampleTarget] = Some exampleTarget"
    by code_simp
  have d0: "proxyParseContentLength exampleDeclared None = None"
    by (simp add: proxyParseContentLength_def)
  have d1: "proxyParseContentLength exampleDeclared (Some ''20000000'') = Some 20000000"
    by (simp add: proxyParseContentLength_def exampleDeclared_def)
  have big: "MAX_RESPONSE_SIZE_BYTES < 20000000" by (simp add: MAX_RESPONSE_SIZE_BYTES_def)
  have nm: "targetName exampleTarget = ''default''" "routeToken exampleRoute = ''t''"
    by (simp_all add: exampleTarget_def exampleRoute_def)
  note t1 = bounded_read_limit [where toNumber = exampleDeclared and declared = None
      and resp = "\<lparr>upstreamStatus = 200, upstreamContentLength = None,
                    upstreamBody = Some ([tenMiB], StreamDone)\<rparr>"
      and chunks = "[tenMiB]" and route = exampleRoute and targets = "[exampleTarget]"
      and target = exampleTarget, THEN conjunct1]
  note t2 = bounded_read_limit [where toNumber = exampleDeclared and declared = None
      and resp = "\<lparr>upstreamStatus = 200, upstreamContentLength = None,
                    upstreamBody = Some ([tenMiB, [66]], StreamDone)\<rparr>"
      and chunks = "[tenMiB, [66]]" and ending = StreamDone
      and route = exampleRoute and targets = "[exampleTarget]"
      and target = exampleTarget and preserveDomain = False and rewrite = Some, THEN conjunct2]
  note t3 = bounded_read_limit [where toNumber = exampleDeclared and declared = "Some 20000000"
      and resp = "\<lparr>upstreamStatus = 200, upstreamContentLength = Some ''20000000'',
                    upstreamBody = Some ([[66]], StreamDone)\<rparr>"
      and route = exampleRoute and targets = "[exampleTarget]"
      and target = exampleTarget and preserveDomain = False and rewrite = Some, THEN conjunct2]
  have c1: "readResponseBodyWithLimit exampleDeclared
     \<lparr>upstreamStatus = 200, upstreamContentLength = None,
      upstreamBody = Some ([tenMiB], StreamDone)\<rparr> MAX_RESPONSE_SIZE_BYTES
   = Some (Inr tenMiB)"
    using t1 tgt d0 len by simp
  have c2: "proxySubscriptionRequest exampleDeclared exampleRoute [exampleTarget] False Some
       (Inr \<lparr>upstreamStatus = 200, upstreamContentLength = None,
             upstreamBody = Some ([tenMiB, [66]], StreamDone)\<rparr>)
     = Some \<lparr>resultService = ''default'', resultToken = ''t'',
             resultResponse = textResponse 502 ''Subscription response exceeded size limit.''\<rparr>"
    using t2 tgt d0 len nm by simp
  have c3: "proxySubscriptionRequest exampleDeclared exampleRoute [exampleTarget] False Some
       (Inr \<lparr>upstreamStatus = 200, upstreamContentLength = Some ''20000000'',
             upstreamBody = Some ([[66]], StreamDone)\<rparr>)
     = Some \<lparr>resultService = ''default'', resultToken = ''t'',
             resultResponse = textResponse 502 ''Subscription response exceeded size limit.''\<rparr>"
    using t3 tgt d1 big nm by simp
  show ?thesis using c1 c2 c3 by blast
qed

subsection \<open>Socket bridge teardown\<close>

lemma teardownCalls_logCall:
  "teardownCalls (logCall c s) = teardownCalls s @ (if isTeardownCall c then [c] else [])"
  by (simp add: teardownCalls_def logCall_def)

lemma logCall_fields [simp]:
  "bridgeClosed (logCall c s) = bridgeClosed s" "listening (logCall c s) = listening s"
  "onClosedNotified (logCall c s) = onClosedNotified s"
  by (simp_all add: logCall_def)

lemma tornDown_cong: "teardownCalls s' = teardownCalls s \<Longrightarrow> tornDown cb s' = tornDown cb s"
  by (simp add: tornDown_def)

lemma bridgeInv_logCall:
  assumes "bridgeInv cb s" and "\<not> isTeardownCall c"
  shows "bridgeInv cb (logCall c s)"
proof -
  have t: "teardownCalls (logCall c s) = teardownCalls s"
    using assms(2) by (simp add: teardownCalls_logCall)
  show ?thesis using assms(1) by (simp add: bridgeInv_def t tornDown_cong [OF t])
qed

lemma closeBoth_closed: "bridgeClosed s \<Longrightarrow> closeBoth cb s code reason = s"
  by (simp add: closeBoth_def)

lemma closeBoth_inv:
  assumes "bridgeInv cb s"
  shows "bridgeInv cb (closeBoth cb s code reason) \<and> bridgeClosed (closeBoth cb s code reason)"
proof (cases "bridgeClosed s")
  case True
  then show ?thesis using assms by (simp add: closeBoth_closed)
next
  case False
  then have t: "teardownCalls s = []" and n: "\<not> onClosedNotified s"
    using assms by (simp_all add: bridgeInv_def)
  have f: "filter isTeardownCall (calls s) = []" using t by (simp add: teardownCalls_def)
  show ?thesis
    using False n f
    by (simp add: closeBoth_def Let_def bridgeInv_def tornDown_def teardownCalls_def logCall_def
          closeSocketPair_def safeClose_def isTeardownCall_def)
qed

lemma onForwardFailure_inv:
  assumes "bridgeInv cb s"
  shows "bridgeInv cb (onForwardFailure cb s direction)"
proof -
  have i: "bridgeInv cb (logCall (OnRelayError direction) s)"
    using assms by (rule bridgeInv_logCall) (simp add: isTeardownCall_def)
  show ?thesis using i closeBoth_inv [OF i] by (simp add: onForwardFailure_def Let_def)
qed

lemma conn_update_teardown:
  "teardownCalls (s\<lparr>clientConn := x\<rparr>) = teardownCalls s"
  "teardownCalls (s\<lparr>backendConn := x\<rparr>) = teardownCalls s"
  by (simp_all add: teardownCalls_def)

lemma conn_update_inv:
  "bridgeInv cb s \<Longrightarrow> bridgeInv cb (s\<lparr>clientConn := x\<rparr>)"
  "bridgeInv cb s \<Longrightarrow> bridgeInv cb (s\<lparr>backendConn := x\<rparr>)"
  by (simp_all add: bridgeInv_def conn_update_teardown tornDown_cong [OF conn_update_teardown(1)]
        tornDown_cong [OF conn_update_teardown(2)])

lemma bridgeStep_inv:
  assumes "bridgeInv cb s"
  shows "bridgeInv cb (bridgeStep cb s e)"
proof (cases e)
  case (ClientClose code reason)
  then show ?thesis
    using assms closeBoth_inv [OF conn_update_inv(1) [OF assms]] by (simp add: onClientClose_def)
next
  case (BackendClose code reason)
  then show ?thesis
    using assms closeBoth_inv [OF conn_update_inv(2) [OF assms]] by (simp add: onBackendClose_def)
next
  case ClientError
  have i: "bridgeInv cb (logCall (OnRelayError ClientToBackend) (s\<lparr>clientConn := Errored\<rparr>))"
    using conn_update_inv(1) [OF assms] by (rule bridgeInv_logCall) (simp add: isTeardownCall_def)
  show ?thesis using ClientError assms i closeBoth_inv [OF i] by (simp add: onClientError_def Let_def)
next
  case BackendError
  have i: "bridgeInv cb (logCall (OnRelayError BackendToClient) (s\<lparr>backendConn := Errored\<rparr>))"
    using conn_update_inv(2) [OF assms] by (rule bridgeInv_logCall) (simp add: isTeardownCall_def)
  show ?thesis using BackendError assms i closeBoth_inv [OF i] by (simp add: onBackendError_def Let_def)
next
  case (ClientMessage destinationOpen sendThrows)
  have "bridgeInv cb (logCall (Send ClientToBackend) s)"
    using assms by (rule bridgeInv_logCall) (simp add: isTeardownCall_def)
  then show ?thesis
    using ClientMessage assms onForwardFailure_inv [OF assms] by (simp add: forward_def)
next
  case (BackendMessage destinationOpen sendThrows)
  have "bridgeInv cb (logCall (Send BackendToClient) s)"
    using assms by (rule bridgeInv_logCall) (simp add: isTeardownCall_def)
  then show ?thesis
    using BackendMessage assms onForwardFailure_inv [OF assms] by (simp add: forward_def)
next
  case (BlobResolved direction sendThrows)
  have a: "bridgeInv cb (logCall (Send direction) s)"
    using assms by (rule bridgeInv_logCall) (simp add: isTeardownCall_def)
  have b: "bridgeInv cb (logCall (OnRelayError direction) s)"
    using assms by (rule bridgeInv_logCall) (simp add: isTeardownCall_def)
  show ?thesis
    using BlobResolved assms a onForwardFailure_inv [OF assms] onForwardFailure_inv [OF b]
    by (simp add: blobResolved_def)
next
  case (BlobRejected direction)
  then show ?thesis using onForwardFailure_inv [OF assms] by (simp add: blobRejected_def)
next
  case (Disconnect code reason)
  then show ?thesis using closeBoth_inv [OF assms] by simp
qed

lemma bridgeStep_closed:
  assumes "bridgeInv cb s" and "bridgeClosed s"
  shows "bridgeClosed (bridgeStep cb s e) \<and> teardownCalls (bridgeStep cb s e) = teardownCalls s"
proof -
  have nl: "\<not> listening s" using assms by (simp add: bridgeInv_def)
  have ff: "onForwardFailure cb s d = logCall (OnRelayError d) s" for d
    using assms(2) by (simp add: onForwardFailure_def Let_def closeBoth_closed)
  show ?thesis
    using nl assms(2)
    by (cases e)
       (simp_all add: blobResolved_def blobRejected_def ff closeBoth_closed teardownCalls_logCall
          isTeardownCall_def)
qed

lemma runBridge_inv:
  assumes "bridgeInv cb s"
  shows "bridgeInv cb (runBridge cb s events)"
  using assms unfolding runBridge_def
proof (induction events arbitrary: s)
  case Nil
  then show ?case by simp
next
  case (Cons e events)
  from Cons.IH [OF bridgeStep_inv [OF Cons.prems]] show ?case by simp
qed

lemma bridgeSockets_inv: "bridgeInv cb (bridgeSockets clientReadyState backendReadyState)"
  by (simp add: bridgeInv_def bridgeSockets_def teardownCalls_def)

lemma count_list_filter_same: "P c \<Longrightarrow> count_list (filter P xs) c = count_list xs c"
  by (induction xs) auto

lemma count_teardown:
  "isTeardownCall c \<Longrightarrow> count_list (calls s) c = count_list (teardownCalls s) c"
  by (simp add: teardownCalls_def count_list_filter_same)

lemma closesOf_teardown:
  "closesOf socket s = length (filter (isSafeClose socket) (teardownCalls s))"
proof -
  have "isSafeClose socket c \<Longrightarrow> isTeardownCall c" for c
    by (cases c) (simp_all add: isSafeClose_def isTeardownCall_def)
  then have "filter (isSafeClose socket) (filter isTeardownCall xs) = filter (isSafeClose socket) xs"
    for xs by (induction xs) auto
  then show ?thesis by (simp add: closesOf_def teardownCalls_def)
qed

lemma tornDown_counts:
  assumes "tornDown cb s"
  shows "count_list (calls s) RemoveListeners = 1 \<and> closesOf ClientSocket s = 1
       \<and> closesOf BackendSocket s = 1
       \<and> count_list (calls s) OnClosed = (if hasOnClosed cb then 1 else 0)"
proof -
  from assms obtain code reason where
    t: "teardownCalls s
        = [RemoveListeners, SafeClose ClientSocket code reason, SafeClose BackendSocket code reason]
          @ (if hasOnClosed cb then [OnClosed] else [])"
    unfolding tornDown_def by blast
  have a: "count_list (calls s) RemoveListeners = 1"
    by (simp add: count_teardown isTeardownCall_def t)
  have b: "count_list (calls s) OnClosed = (if hasOnClosed cb then 1 else 0)"
    by (simp add: count_teardown isTeardownCall_def t)
  have c: "closesOf ClientSocket s = 1" "closesOf BackendSocket s = 1"
    by (simp_all add: closesOf_teardown t isSafeClose_def)
  show ?thesis using a b c by simp
qed

lemma idle_counts:
  assumes "teardownCalls s = []"
  shows "count_list (calls s) RemoveListeners = 0 \<and> closesOf ClientSocket s = 0
       \<and> closesOf BackendSocket s = 0 \<and> count_list (calls s) OnClosed = 0"
  using assms by (simp add: count_teardown isTeardownCall_def closesOf_teardown)

text \<open>
  Claim C3. For every bridge and every sequence of socket events, \<open>Blob\<close> continuations and
  calls of the \<open>disconnect\<close> function, \<open>onClosed\<close> is called at most once, the listeners are
  removed at most once and each socket is closed at most once. Once the bridge is closed these
  counts are exactly one (\<open>onClosed\<close>: one when the callback is given), a further \<open>closeBoth\<close>
  returns the state unchanged, and no later event adds a teardown call. Before that no teardown
  call has been made, and a \<open>disconnect\<close> call closes the bridge.
\<close>

theorem teardown_once:
  "let s = runBridge cb (bridgeSockets clientReadyState backendReadyState) events
   in count_list (calls s) OnClosed \<le> 1
    \<and> count_list (calls s) RemoveListeners \<le> 1
    \<and> closesOf ClientSocket s \<le> 1 \<and> closesOf BackendSocket s \<le> 1
    \<and> (bridgeClosed s \<longrightarrow>
          count_list (calls s) RemoveListeners = 1
          \<and> closesOf ClientSocket s = 1 \<and> closesOf BackendSocket s = 1
          \<and> count_list (calls s) OnClosed = (if hasOnClosed cb then 1 else 0)
          \<and> closeBoth cb s code reason = s
          \<and> bridgeClosed (bridgeStep cb s e)
          \<and> teardownCalls (bridgeStep cb s e) = teardownCalls s)
    \<and> (\<not> bridgeClosed s \<longrightarrow> teardownCalls s = [])
    \<and> bridgeClosed (bridgeStep cb s (Disconnect code reason))"
proof -
  define s where "s = runBridge cb (bridgeSockets clientReadyState backendReadyState) events"
  have i: "bridgeInv cb s"
    unfolding s_def by (rule runBridge_inv) (rule bridgeSockets_inv)
  have d: "bridgeClosed (bridgeStep cb s (Disconnect code reason))"
    using closeBoth_inv [OF i, of code reason] by simp
  show ?thesis
  proof (cases "bridgeClosed s")
    case True
    then have t: "tornDown cb s" using i by (simp add: bridgeInv_def)
    note c = tornDown_counts [OF t]
    note n = bridgeStep_closed [OF i True, of e]
    have cb: "closeBoth cb s code reason = s" using True by (rule closeBoth_closed)
    show ?thesis unfolding Let_def s_def [symmetric] using True c n cb d by simp
  next
    case False
    then have t: "teardownCalls s = []" using i by (simp add: bridgeInv_def)
    note c = idle_counts [OF t]
    show ?thesis unfolding Let_def s_def [symmetric] using False c t d by simp
  qed
qed

theorem teardown_once_witness:
  "(let s = runBridge \<lparr>hasOnClosed = True, onRelayErrorThrows = False\<rparr> (bridgeSockets 1 1) exampleEvents
    in bridgeClosed s
     \<and> count_list (calls s) RemoveListeners = 1
     \<and> closesOf ClientSocket s = 1 \<and> closesOf BackendSocket s = 1
     \<and> count_list (calls s) OnClosed = 1
     \<and> closeBoth \<lparr>hasOnClosed = True, onRelayErrorThrows = False\<rparr> s 1000 ''again'' = s
     \<and> teardownCalls (bridgeStep \<lparr>hasOnClosed = True, onRelayErrorThrows = False\<rparr> s (BlobRejected ClientToBackend))
       = teardownCalls s)
   \<and> (let s = runBridge \<lparr>hasOnClosed = True, onRelayErrorThrows = False\<rparr> (bridgeSockets 1 1)
                [ClientMessage True False]
      in \<not> bridgeClosed s \<and> teardownCalls s = [])"
proof -
  have c1: "bridgeClosed (runBridge \<lparr>hasOnClosed = True, onRelayErrorThrows = False\<rparr>
              (bridgeSockets 1 1) exampleEvents)"
    by code_simp
  have c2: "\<not> bridgeClosed (runBridge \<lparr>hasOnClosed = True, onRelayErrorThrows = False\<rparr>
              (bridgeSockets 1 1) [ClientMessage True False])"
    by code_simp
  note t1 = teardown_once [where cb = "\<lparr>hasOnClosed = True, onRelayErrorThrows = False\<rparr>"
      and clientReadyState = 1 and backendReadyState = 1 and events = exampleEvents
      and code = 1000 and reason = "''again''" and e = "BlobRejected ClientToBackend",
      unfolded Let_def]
  note t2 = teardown_once [where cb = "\<lparr>hasOnClosed = True, onRelayErrorThrows = False\<rparr>"
      and clientReadyState = 1 and backendReadyState = 1 and events = "[ClientMessage True False]",
      unfolded Let_def]
  show ?thesis unfolding Let_def using t1 t2 c1 c2 by simp
qed

subsection \<open>Identity-session manager\<close>

























































text \<open>
  The bound is one per bucket object, not per identity. When the session that a registration
  replaces is the only one of its bucket, its callback re-enters \<open>unregisterConnection\<close>, which
  finds the bucket empty and deletes it from \<open>bucketsByUuid\<close>; the registration then stores the
  new session in the bucket object it still holds. The next registration of the identity from
  another address creates a second bucket, so that with cap 1 the identity has the two sessions
  \<open>y\<close> and \<open>z\<close>.
\<close>

lemma reconnect_unlinks_bucket:
  "map_option bucketsByUuid
     (runUuidOps (\<lambda>_. True) (newUUIDConnectionManager 0 1) (take 2 reconnectOps)) = Some []
   \<and> uuidByConnectionId reconnected = [(''y'', identityU), (''z'', identityU)]
   \<and> map (\<lambda>b. map fst (byConnectionId b)) (bucketObjects reconnected) = [[''y''], [''z'']]"
  by code_simp

end
